theory Spec2Isabelle
  imports Main "HOL-Library.AList"
begin

text \<open>
  A model of \<open>detector_Barath_S.py\<close>: the class \<open>PIIDetector\<close> with its patterns, its
  value tests, \<open>extract_names\<close>, \<open>redact_text\<close> and \<open>analyze_record\<close>. The functions
  that read and write files (\<open>process_csv\<close>, \<open>main\<close>) are not part of it.
\<close>

section \<open>Strings and character classes\<close>

text \<open>
  A Python \<open>str\<close> is modelled as a \<^typ>\<open>string\<close> whose characters are the code points
  \<open>0 .. 255\<close> (Latin-1). On that range the predicates below are the ones CPython uses for
  \<open>\d\<close>, \<open>\s\<close>, \<open>\w\<close> in a \<open>str\<close> pattern and for \<open>str.strip()\<close> and \<open>str.split()\<close>.
  Strings with code points above \<open>U+00FF\<close> and JSON floating point numbers are not covered.
\<close>

definition is_digit :: "char \<Rightarrow> bool" where
  "is_digit c = (c \<in> set ''0123456789'')"

definition is_lower :: "char \<Rightarrow> bool" where
  "is_lower c = (c \<in> set ''abcdefghijklmnopqrstuvwxyz'')"

definition is_upper :: "char \<Rightarrow> bool" where
  "is_upper c = (c \<in> set ''ABCDEFGHIJKLMNOPQRSTUVWXYZ'')"

definition is_alpha :: "char \<Rightarrow> bool" where
  "is_alpha c = (is_lower c \<or> is_upper c)"

text \<open>\<open>\s\<close>, and the characters \<open>strip()\<close> and \<open>split()\<close> treat as white space.\<close>

definition is_space :: "char \<Rightarrow> bool" where
  "is_space c = (c \<in> {CHR 0x09, CHR 0x0A, CHR 0x0B, CHR 0x0C, CHR 0x0D,
                        CHR 0x1C, CHR 0x1D, CHR 0x1E, CHR 0x1F, CHR 0x20, CHR 0x85, CHR 0xA0})"

text \<open>\<open>\w\<close>: alphanumeric in the Unicode sense, or the underscore.\<close>

definition is_word :: "char \<Rightarrow> bool" where
  "is_word c = (let n = (of_char c :: nat) in
      is_alpha c \<or> is_digit c \<or> c = CHR ''_''
      \<or> n \<in> {170, 178, 179, 181, 185, 186, 188, 189, 190}
      \<or> (192 \<le> n \<and> n \<le> 214) \<or> (216 \<le> n \<and> n \<le> 246) \<or> 248 \<le> n)"

definition lower_char :: "char \<Rightarrow> char" where
  "lower_char c = (let n = (of_char c :: nat) in
      if (65 \<le> n \<and> n \<le> 90) \<or> (192 \<le> n \<and> n \<le> 222 \<and> n \<noteq> 215) then char_of (n + 32) else c)"

definition lower :: "string \<Rightarrow> string" where
  "lower s = map lower_char s"

text \<open>
  \<open>str.upper()\<close> on ASCII letters; the source calls it on the two literals
  \<open>'device_id'\<close> and \<open>'ip_address'\<close> only.
\<close>

definition upper_char :: "char \<Rightarrow> char" where
  "upper_char c = (let n = (of_char c :: nat) in
      if 97 \<le> n \<and> n \<le> 122 then char_of (n - 32) else c)"

definition upper :: "string \<Rightarrow> string" where
  "upper s = map upper_char s"

definition strip :: "string \<Rightarrow> string" where
  "strip s = rev (dropWhile is_space (rev (dropWhile is_space s)))"

text \<open>\<open>s.split()\<close>: the maximal runs of characters that are not white space.\<close>

fun split_acc :: "string \<Rightarrow> string \<Rightarrow> string list" where
  "split_acc cur [] = (if cur = [] then [] else [cur])"
| "split_acc cur (c # cs) =
     (if is_space c then (if cur = [] then split_acc [] cs else cur # split_acc [] cs)
      else split_acc (cur @ [c]) cs)"

definition split_ws :: "string \<Rightarrow> string list" where
  "split_ws s = split_acc [] s"

text \<open>\<open>s.split(sep)\<close> for a separator of one character.\<close>

fun split_on :: "char \<Rightarrow> string \<Rightarrow> string \<Rightarrow> string list" where
  "split_on sep cur [] = [cur]"
| "split_on sep cur (c # cs) =
     (if c = sep then cur # split_on sep [] cs else split_on sep (cur @ [c]) cs)"

definition split_char :: "char \<Rightarrow> string \<Rightarrow> string list" where
  "split_char sep s = split_on sep [] s"

text \<open>\<open>s.replace(old, new)\<close>: every occurrence, left to right, without overlap.\<close>

function replace :: "string \<Rightarrow> string \<Rightarrow> string \<Rightarrow> string" where
  "replace old new [] = (if old = [] then new else [])"
| "replace old new (c # cs) =
     (if old = [] then new @ c # replace old new cs
      else if take (length old) (c # cs) = old
           then new @ replace old new (drop (length old) (c # cs))
           else c # replace old new cs)"
  by pat_completeness auto
termination
  by (relation "measure (\<lambda>(old, new, s). length s)") (auto simp: neq_Nil_conv)

section \<open>Scalar values and records\<close>

datatype pyval = PNone | PStr string | PInt int | PBool bool

type_synonym pydict = "(string \<times> pyval) list"

definition digit_char :: "nat \<Rightarrow> char" where
  "digit_char d = ''0123456789'' ! d"

function dec_nat :: "nat \<Rightarrow> string" where
  "dec_nat n = (if n < 10 then [digit_char n] else dec_nat (n div 10) @ [digit_char (n mod 10)])"
  by pat_completeness auto
termination
  by (relation "measure id") auto

declare dec_nat.simps [simp del]

definition dec_int :: "int \<Rightarrow> string" where
  "dec_int i = (if i < 0 then CHR ''-'' # dec_nat (nat (- i)) else dec_nat (nat i))"

text \<open>\<open>str(value)\<close>.\<close>

fun py_str :: "pyval \<Rightarrow> string" where
  "py_str PNone = ''None''"
| "py_str (PStr s) = s"
| "py_str (PInt i) = dec_int i"
| "py_str (PBool b) = (if b then ''True'' else ''False'')"

datatype py_error = IndexError

section \<open>The regular expressions of the detector\<close>

text \<open>
  Every pattern of the source is a sequence of anchors and of character classes under a
  greedy quantifier. \<open>Rep p lo hi\<close> is the class \<open>p\<close> repeated at least \<open>lo\<close> and at most
  \<open>hi\<close> times (\<open>None\<close>: unbounded); \<open>Bnd\<close> is \<open>\b\<close>, \<open>Bos\<close> is \<open>^\<close>, \<open>Eos\<close> is \<open>$\<close>.
\<close>

datatype item = Bnd | Bos | Eos | Rep "char \<Rightarrow> bool" nat "nat option"

abbreviation One :: "(char \<Rightarrow> bool) \<Rightarrow> item" where
  "One p \<equiv> Rep p 1 (Some 1)"

abbreviation Lit :: "char \<Rightarrow> item" where
  "Lit c \<equiv> Rep (\<lambda>x. x = c) 1 (Some 1)"

text \<open>\<open>prev\<close> is the character before the current position, \<open>s\<close> the text from it on.\<close>

definition boundary :: "char option \<Rightarrow> string \<Rightarrow> bool" where
  "boundary prev s =
     ((case prev of None \<Rightarrow> False | Some c \<Rightarrow> is_word c)
      \<noteq> (case s of [] \<Rightarrow> False | c # _ \<Rightarrow> is_word c))"

definition prev_at :: "nat \<Rightarrow> char option \<Rightarrow> string \<Rightarrow> char option" where
  "prev_at j prev s = (if j = 0 then prev else Some (s ! (j - 1)))"

definition avail :: "(char \<Rightarrow> bool) \<Rightarrow> nat option \<Rightarrow> string \<Rightarrow> nat" where
  "avail p hi s = (case hi of None \<Rightarrow> length (takeWhile p s)
                           | Some h \<Rightarrow> min h (length (takeWhile p s)))"

fun first_some :: "'a option list \<Rightarrow> 'a option" where
  "first_some [] = None"
| "first_some (x # xs) = (case x of Some y \<Rightarrow> Some y | None \<Rightarrow> first_some xs)"

text \<open>
  The backtracking matcher at one position: the length of the match the engine finds
  first. A greedy class takes as many characters as it can and gives them back one by one
  while the rest of the pattern fails.
\<close>

fun mt :: "item list \<Rightarrow> char option \<Rightarrow> string \<Rightarrow> nat option" where
  "mt [] prev s = Some 0"
| "mt (Bnd # r) prev s = (if boundary prev s then mt r prev s else None)"
| "mt (Bos # r) prev s = (if prev = None then mt r prev s else None)"
| "mt (Eos # r) prev s = (if s = [] \<or> s = [CHR 0x0A] then mt r prev s else None)"
| "mt (Rep p lo hi # r) prev s =
     first_some (map (\<lambda>j. map_option ((+) j) (mt r (prev_at j prev s) (drop j s)))
                     (rev [lo ..< Suc (avail p hi s)]))"

text \<open>\<open>re.match(pattern, s)\<close> and \<open>pattern.search(s)\<close>, as truth values.\<close>

definition re_match :: "item list \<Rightarrow> string \<Rightarrow> bool" where
  "re_match items s = (mt items None s \<noteq> None)"

fun search_from :: "item list \<Rightarrow> char option \<Rightarrow> string \<Rightarrow> bool" where
  "search_from items prev [] = (mt items prev [] \<noteq> None)"
| "search_from items prev (c # cs) =
     (mt items prev (c # cs) \<noteq> None \<or> search_from items (Some c) cs)"

definition re_search :: "item list \<Rightarrow> string \<Rightarrow> bool" where
  "re_search items s = search_from items None s"

text \<open>
  \<open>pattern.findall(s)\<close> for a pattern without groups: the matched texts, left to right.
  After a match the scan goes on where the match ended; after an empty match it moves one
  character on.
\<close>

function findall_from :: "item list \<Rightarrow> char option \<Rightarrow> string \<Rightarrow> string list" where
  "findall_from items prev [] = (case mt items prev [] of None \<Rightarrow> [] | Some _ \<Rightarrow> [[]])"
| "findall_from items prev (c # cs) =
     (case mt items prev (c # cs) of
        None \<Rightarrow> findall_from items (Some c) cs
      | Some n \<Rightarrow>
          if n = 0 then [] # findall_from items (Some c) cs
          else take n (c # cs) # findall_from items (Some ((c # cs) ! (n - 1))) (drop n (c # cs)))"
  by pat_completeness auto
termination
  by (relation "measure (\<lambda>(items, prev, s). length s)") auto

definition re_findall :: "item list \<Rightarrow> string \<Rightarrow> string list" where
  "re_findall items s = findall_from items None s"

text \<open>
  \<open>pattern.sub(repl, s)\<close> with a function \<open>repl\<close> of the matched text. The function may
  raise; the exception of the first match that raises is the result. No pattern of the
  source matches the empty string (\<open>mt_patterns_positive\<close> below), so the branches for an
  empty match are never taken; they make the functions total.
\<close>

function sub_from ::
  "item list \<Rightarrow> (string \<Rightarrow> py_error + string) \<Rightarrow> char option \<Rightarrow> string \<Rightarrow> py_error + string" where
  "sub_from items repl prev [] = (case mt items prev [] of None \<Rightarrow> Inr [] | Some _ \<Rightarrow> repl [])"
| "sub_from items repl prev (c # cs) =
     (case mt items prev (c # cs) of
        None \<Rightarrow> (case sub_from items repl (Some c) cs of Inl e \<Rightarrow> Inl e | Inr r \<Rightarrow> Inr (c # r))
      | Some n \<Rightarrow>
          (case repl (take n (c # cs)) of
             Inl e \<Rightarrow> Inl e
           | Inr x \<Rightarrow>
               if n = 0
               then (case sub_from items repl (Some c) cs of
                       Inl e \<Rightarrow> Inl e | Inr r \<Rightarrow> Inr (x @ c # r))
               else (case sub_from items repl (Some ((c # cs) ! (n - 1))) (drop n (c # cs)) of
                       Inl e \<Rightarrow> Inl e | Inr r \<Rightarrow> Inr (x @ r))))"
  by pat_completeness auto
termination
  by (relation "measure (\<lambda>(items, repl, prev, s). length s)") auto

definition re_sub :: "item list \<Rightarrow> (string \<Rightarrow> py_error + string) \<Rightarrow> string \<Rightarrow> py_error + string" where
  "re_sub items repl s = sub_from items repl None s"

section \<open>The detector\<close>

subsection \<open>Patterns (\<open>PIIDetector.__init__\<close>)\<close>

definition patterns_phone :: "item list" where
  "patterns_phone = [Bnd, Rep is_digit 10 (Some 10), Bnd]"

text \<open>The classes \<open>[2-9]\<close> and \<open>[789]\<close>.\<close>

definition digit_2_9 :: "char \<Rightarrow> bool" where
  "digit_2_9 c = (c \<in> set ''23456789'')"

definition digit_7_9 :: "char \<Rightarrow> bool" where
  "digit_7_9 c = (c \<in> set ''789'')"

definition patterns_aadhar :: "item list" where
  "patterns_aadhar =
     [Bnd, One digit_2_9, Rep is_digit 3 (Some 3), Rep is_space 0 (Some 1),
      Rep is_digit 4 (Some 4), Rep is_space 0 (Some 1), Rep is_digit 4 (Some 4), Bnd]"

text \<open>Compiled with \<open>re.IGNORECASE\<close>: \<open>[A-Z]\<close> is any ASCII letter.\<close>

definition patterns_passport :: "item list" where
  "patterns_passport = [Bnd, One is_alpha, Rep is_digit 7 (Some 7), Bnd]"

text \<open>The classes \<open>[a-zA-Z0-9.-]\<close> and \<open>[a-zA-Z0-9._%+-]\<close>.\<close>

definition upi_local :: "char \<Rightarrow> bool" where
  "upi_local c = (is_alpha c \<or> is_digit c \<or> c \<in> set ''.-'')"

definition email_local :: "char \<Rightarrow> bool" where
  "email_local c = (is_alpha c \<or> is_digit c \<or> c \<in> set ''._%+-'')"

definition email_domain :: "char \<Rightarrow> bool" where
  "email_domain c = (is_alpha c \<or> is_digit c \<or> c \<in> set ''.-'')"

definition patterns_upi :: "item list" where
  "patterns_upi = [Bnd, Rep upi_local 2 (Some 256), Lit (CHR ''@''), Rep is_alpha 2 (Some 64), Bnd]"

definition patterns_email :: "item list" where
  "patterns_email =
     [Bnd, Rep email_local 1 None, Lit (CHR ''@''), Rep email_domain 1 None, Lit (CHR ''.''),
      Rep is_alpha 2 None, Bnd]"

definition phone_variations :: "item list list" where
  "phone_variations =
     [[Bnd, Lit (CHR ''+''), Lit (CHR ''9''), Lit (CHR ''1''),
       Rep (\<lambda>c. c = CHR ''-'' \<or> is_space c) 0 (Some 1),
       One digit_7_9, Rep is_digit 9 (Some 9), Bnd],
      [Bnd, Lit (CHR ''9''), Lit (CHR ''1''), One digit_7_9,
       Rep is_digit 9 (Some 9), Bnd],
      [Bnd, One digit_7_9, Rep is_digit 9 (Some 9), Bnd]]"

definition name_pattern :: "item list" where
  "name_pattern =
     [Bnd, One is_upper, Rep is_lower 1 None, Rep is_space 1 None,
      One is_upper, Rep is_lower 1 None, Bnd]"

text \<open>\<open>^[2-9]\d{11}$\<close>, the pattern \<open>is_aadhar_number\<close> gives to \<open>re.match\<close>.\<close>

definition aadhar_exact :: "item list" where
  "aadhar_exact = [Bos, One digit_2_9, Rep is_digit 11 (Some 11), Eos]"

subsection \<open>Value tests\<close>

text \<open>
  \<open>re.sub(r'[-\s()]', '', s)\<close> and \<open>re.sub(r'\s', '', s)\<close> delete the characters of one
  class; they are written as a filter (\<open>sub_delete_class\<close> below relates the two).
\<close>

definition is_phone_number :: "string \<Rightarrow> bool" where
  "is_phone_number text =
     (if text = [] then False
      else let str_text = strip text;
               cleaned = filter (\<lambda>c. \<not> (c \<in> set ''-()'' \<or> is_space c)) str_text
           in if re_search patterns_phone cleaned then True
              else list_ex (\<lambda>pattern. re_search pattern str_text) phone_variations)"

definition is_aadhar_number :: "string \<Rightarrow> bool" where
  "is_aadhar_number text =
     (if text = [] then False
      else let str_text = strip text
           in if re_search patterns_aadhar str_text then True
              else let cleaned = filter (\<lambda>c. \<not> is_space c) str_text
                   in re_match aadhar_exact cleaned)"

definition is_passport_number :: "string \<Rightarrow> bool" where
  "is_passport_number text = (if text = [] then False else re_search patterns_passport (strip text))"

definition is_upi_id :: "string \<Rightarrow> bool" where
  "is_upi_id text = (if text = [] then False else re_search patterns_upi (strip text))"

definition is_email :: "string \<Rightarrow> bool" where
  "is_email text = (if text = [] then False else re_search patterns_email (strip text))"

definition stoplist :: "string list" where
  "stoplist = [''new'', ''york'', ''san'', ''los'', ''las'', ''north'', ''south'', ''east'', ''west'']"

definition extract_names :: "string \<Rightarrow> string list" where
  "extract_names text =
     (if text = [] then []
      else let str_text = strip text;
               matches = re_findall name_pattern str_text
           in filter (\<lambda>match. let words = split_ws match
                               in length words \<ge> 2 \<and> \<not> list_ex (\<lambda>word. lower word \<in> set stoplist) words)
                     matches)"

subsection \<open>\<open>redact_text\<close>\<close>

text \<open>The replacement functions; \<open>m\<close> is \<open>m.group()\<close>, the matched text.\<close>

definition mask_phone_variation :: "string \<Rightarrow> py_error + string" where
  "mask_phone_variation m =
     Inr (take 2 m @ replicate (length m - 4) (CHR ''X'') @ drop (length m - 2) m)"

definition mask_phone :: "string \<Rightarrow> py_error + string" where
  "mask_phone m = Inr (take 2 m @ replicate 6 (CHR ''X'') @ drop (length m - 2) m)"

definition redact_aadhar :: "string \<Rightarrow> py_error + string" where
  "redact_aadhar aadhar =
     (if CHR '' '' \<in> set aadhar then Inr (''XXXX XXXX '' @ drop (length aadhar - 4) aadhar)
      else Inr (''XXXXXXXX'' @ drop (length aadhar - 4) aadhar))"

definition mask_passport :: "string \<Rightarrow> py_error + string" where
  "mask_passport m = Inr ''[REDACTED_PASSPORT]''"

text \<open>\<open>parts[i]\<close> on a list raises \<open>IndexError\<close> out of range.\<close>

definition index :: "'a list \<Rightarrow> nat \<Rightarrow> py_error + 'a" where
  "index xs i = (if i < length xs then Inr (xs ! i) else Inl IndexError)"

definition mask_upi :: "string \<Rightarrow> py_error + string" where
  "mask_upi m =
     (case index (split_char (CHR ''@'') m) 0 of
        Inl e \<Rightarrow> Inl e
      | Inr p0 \<Rightarrow> (case index (split_char (CHR ''@'') m) 1 of
                    Inl e \<Rightarrow> Inl e
                  | Inr p1 \<Rightarrow> Inr (take 3 p0 @ ''XXX@'' @ p1)))"

definition redact_email :: "string \<Rightarrow> py_error + string" where
  "redact_email email =
     (let parts = split_char (CHR ''@'') email
      in case index parts 0 of
           Inl e \<Rightarrow> Inl e
         | Inr p0 \<Rightarrow>
             if length p0 > 3
             then (case index parts 1 of Inl e \<Rightarrow> Inl e | Inr p1 \<Rightarrow> Inr (take 3 p0 @ ''XXX@'' @ p1))
             else (case index parts 1 of Inl e \<Rightarrow> Inl e | Inr p1 \<Rightarrow> Inr (''XXX@'' @ p1)))"

definition mask_name :: "string \<Rightarrow> py_error + string" where
  "mask_name name =
     (let parts = split_ws name
      in if length parts \<ge> 2
         then (case index parts 0 of
                 Inl e \<Rightarrow> Inl e
               | Inr first \<Rightarrow>
                   (case index first 0 of
                      Inl e \<Rightarrow> Inl e
                    | Inr a \<Rightarrow>
                        (case index (last parts) 0 of
                           Inl e \<Rightarrow> Inl e
                         | Inr b \<Rightarrow> Inr ([a] @ ''XXX '' @ [b] @ ''XXX''))))
         else Inr ''XXXX'')"

fun sub_each ::
  "item list list \<Rightarrow> (string \<Rightarrow> py_error + string) \<Rightarrow> string \<Rightarrow> py_error + string" where
  "sub_each [] repl redacted = Inr redacted"
| "sub_each (pattern # ps) repl redacted =
     (case re_sub pattern repl redacted of Inl e \<Rightarrow> Inl e | Inr r \<Rightarrow> sub_each ps repl r)"

fun mask_names :: "string list \<Rightarrow> string \<Rightarrow> py_error + string" where
  "mask_names [] redacted = Inr redacted"
| "mask_names (name # names) redacted =
     (case mask_name name of
        Inl e \<Rightarrow> Inl e
      | Inr masked \<Rightarrow> mask_names names (replace name masked redacted))"

definition redact_text :: "string \<Rightarrow> string \<Rightarrow> py_error + string" where
  "redact_text text entity_type =
     (if text = [] then Inr text
      else let redacted = strip text
           in if entity_type = ''phone''
              then (case sub_each phone_variations mask_phone_variation redacted of
                      Inl e \<Rightarrow> Inl e
                    | Inr r \<Rightarrow> re_sub patterns_phone mask_phone r)
              else if entity_type = ''aadhar'' then re_sub patterns_aadhar redact_aadhar redacted
              else if entity_type = ''passport'' then re_sub patterns_passport mask_passport redacted
              else if entity_type = ''upi'' then re_sub patterns_upi mask_upi redacted
              else if entity_type = ''email'' then re_sub patterns_email redact_email redacted
              else if entity_type = ''name'' then mask_names (extract_names redacted) redacted
              else Inr redacted)"

subsection \<open>\<open>analyze_record\<close>\<close>

record state =
  has_pii :: bool
  redacted_data :: pydict
  name_el :: "string list"
  email_el :: "string list"
  address_el :: "string list"
  device_id_el :: "string list"
  ip_address_el :: "string list"

definition init :: state where
  "init = \<lparr>has_pii = False, redacted_data = [], name_el = [], email_el = [], address_el = [],
           device_id_el = [], ip_address_el = []\<rparr>"

text \<open>\<open>combinatorial_elements.items()\<close>, in the order the dictionary was built.\<close>

definition combinatorial_items :: "state \<Rightarrow> (string \<times> string list) list" where
  "combinatorial_items st = [(''name'', name_el st), (''email'', email_el st), (''address'', address_el st),
                             (''device_id'', device_id_el st), (''ip_address'', ip_address_el st)]"

text \<open>
  The standalone chain of one field: whether a standalone test fired, and the value the
  field gets.
\<close>

definition standalone :: "string \<Rightarrow> string \<Rightarrow> py_error + (bool \<times> string)" where
  "standalone key str_value =
     (if key \<in> set [''phone'', ''contact''] \<or> is_phone_number str_value
      then map_sum id (Pair True) (redact_text str_value ''phone'')
      else if key = ''aadhar'' \<or> is_aadhar_number str_value
      then map_sum id (Pair True) (redact_text str_value ''aadhar'')
      else if key = ''passport'' \<or> is_passport_number str_value
      then map_sum id (Pair True) (redact_text str_value ''passport'')
      else if key = ''upi_id'' \<or> is_upi_id str_value
      then map_sum id (Pair True) (redact_text str_value ''upi'')
      else Inr (False, str_value))"

text \<open>The combinatorial chain of one field.\<close>

definition collect :: "pydict \<Rightarrow> string \<Rightarrow> string \<Rightarrow> state \<Rightarrow> state" where
  "collect data key str_value st =
     (if key = ''name'' \<or> (key \<in> set [''first_name'', ''last_name''] \<and> ''name'' \<notin> set (map fst data))
      then (if extract_names str_value \<noteq> [] \<or> key \<in> set [''first_name'', ''last_name'']
            then st\<lparr>name_el := name_el st @ [key]\<rparr> else st)
      else if key = ''email'' \<or> is_email str_value
      then st\<lparr>email_el := email_el st @ [key]\<rparr>
      else if key \<in> set [''address'', ''city'', ''pin_code'', ''state'']
      then st\<lparr>address_el := address_el st @ [key]\<rparr>
      else if key \<in> set [''device_id'', ''ip_address'']
      then (if key = ''device_id'' then st\<lparr>device_id_el := device_id_el st @ [key]\<rparr>
            else st\<lparr>ip_address_el := ip_address_el st @ [key]\<rparr>)
      else st)"

text \<open>
  The conditions of the two chains, for the statements below: whether one of the four
  standalone tests holds for a field, and the list the combinatorial chain appends the key
  to (\<open>standalone_hit\<close> and \<open>collect_element_type\<close> relate them to the chains).
\<close>

definition standalone_fires :: "string \<Rightarrow> string \<Rightarrow> bool" where
  "standalone_fires key str_value =
     (key \<in> set [''phone'', ''contact''] \<or> is_phone_number str_value
      \<or> key = ''aadhar'' \<or> is_aadhar_number str_value
      \<or> key = ''passport'' \<or> is_passport_number str_value
      \<or> key = ''upi_id'' \<or> is_upi_id str_value)"

definition element_type_of :: "pydict \<Rightarrow> string \<Rightarrow> string \<Rightarrow> string option" where
  "element_type_of data key str_value =
     (if key = ''name'' \<or> (key \<in> set [''first_name'', ''last_name''] \<and> ''name'' \<notin> set (map fst data))
      then (if extract_names str_value \<noteq> [] \<or> key \<in> set [''first_name'', ''last_name'']
            then Some ''name'' else None)
      else if key = ''email'' \<or> is_email str_value then Some ''email''
      else if key \<in> set [''address'', ''city'', ''pin_code'', ''state''] then Some ''address''
      else if key \<in> set [''device_id'', ''ip_address''] then Some key
      else None)"

text \<open>The fields the loop does not skip, and the ones it appends to a given list.\<close>

definition skipped :: "pyval \<Rightarrow> bool" where
  "skipped value = (value = PNone \<or> value = PStr [])"

definition in_el :: "string \<Rightarrow> pydict \<Rightarrow> string \<times> pyval \<Rightarrow> bool" where
  "in_el element_type data kv =
     (\<not> skipped (snd kv) \<and> element_type_of data (fst kv) (strip (py_str (snd kv))) = Some element_type)"

text \<open>The number of lists that the fields of a record leave non-empty.\<close>

definition el_count :: "pydict \<Rightarrow> nat" where
  "el_count data =
     length (filter (\<lambda>element_type. list_ex (in_el element_type data) data)
                    [''name'', ''email'', ''address'', ''device_id'', ''ip_address''])"

text \<open>One turn of the loop over \<open>data.items()\<close>.\<close>

definition scan_field :: "pydict \<Rightarrow> state \<Rightarrow> string \<Rightarrow> pyval \<Rightarrow> py_error + state" where
  "scan_field data st key value =
     (if value = PNone \<or> value = PStr []
      then Inr (st\<lparr>redacted_data := AList.update key value (redacted_data st)\<rparr>)
      else let str_value = strip (py_str value)
           in case standalone key str_value of
                Inl e \<Rightarrow> Inl e
              | Inr (hit, redacted_value) \<Rightarrow>
                  Inr ((collect data key str_value (st\<lparr>has_pii := has_pii st \<or> hit\<rparr>))
                         \<lparr>redacted_data := AList.update key (PStr redacted_value) (redacted_data st)\<rparr>))"

fun scan_fields :: "pydict \<Rightarrow> state \<Rightarrow> pydict \<Rightarrow> py_error + state" where
  "scan_fields data st [] = Inr st"
| "scan_fields data st ((key, value) # rest) =
     (case scan_field data st key value of
        Inl e \<Rightarrow> Inl e
      | Inr st' \<Rightarrow> scan_fields data st' rest)"

text \<open>The redaction of the combinatorial elements.\<close>

definition redact_field :: "string \<Rightarrow> pydict \<Rightarrow> string \<Rightarrow> py_error + pydict" where
  "redact_field element_type d field =
     (case map_of d field of
        None \<Rightarrow> Inr d
      | Some v \<Rightarrow>
          if element_type = ''name''
          then (case redact_text (py_str v) ''name'' of
                  Inl e \<Rightarrow> Inl e | Inr r \<Rightarrow> Inr (AList.update field (PStr r) d))
          else if element_type = ''email''
          then (case redact_text (py_str v) ''email'' of
                  Inl e \<Rightarrow> Inl e | Inr r \<Rightarrow> Inr (AList.update field (PStr r) d))
          else if element_type \<in> set [''device_id'', ''ip_address'']
          then Inr (AList.update field (PStr (''[REDACTED_'' @ upper element_type @ '']'')) d)
          else Inr d)"

fun redact_fields :: "string \<Rightarrow> pydict \<Rightarrow> string list \<Rightarrow> py_error + pydict" where
  "redact_fields element_type d [] = Inr d"
| "redact_fields element_type d (field # flds) =
     (case redact_field element_type d field of
        Inl e \<Rightarrow> Inl e
      | Inr d' \<Rightarrow> redact_fields element_type d' flds)"

fun redact_elements :: "pydict \<Rightarrow> (string \<times> string list) list \<Rightarrow> py_error + pydict" where
  "redact_elements d [] = Inr d"
| "redact_elements d ((element_type, flds) # rest) =
     (case redact_fields element_type d flds of
        Inl e \<Rightarrow> Inl e
      | Inr d' \<Rightarrow> redact_elements d' rest)"

definition combinatorial_count :: "state \<Rightarrow> nat" where
  "combinatorial_count st = length (filter (\<lambda>(element_type, elements). elements \<noteq> []) (combinatorial_items st))"

definition analyze_record :: "pydict \<Rightarrow> py_error + (bool \<times> pydict)" where
  "analyze_record data =
     (case scan_fields data init data of
        Inl e \<Rightarrow> Inl e
      | Inr st \<Rightarrow>
          if combinatorial_count st \<ge> 2
          then (case redact_elements (redacted_data st) (combinatorial_items st) of
                  Inl e \<Rightarrow> Inl e
                | Inr d \<Rightarrow> Inr (True, d))
          else Inr (has_pii st, redacted_data st))"

section \<open>Properties of the matcher\<close>

lemma first_some_map_Some:
  "first_some (map f xs) = Some n \<Longrightarrow> \<exists>x\<in>set xs. f x = Some n"
  by (induction xs) (auto split: option.splits)

lemma first_some_map_None:
  "first_some (map f xs) = None \<longleftrightarrow> (\<forall>x\<in>set xs. f x = None)"
  by (induction xs) (auto split: option.splits)

lemma avail_le_length: "avail p hi s \<le> length s"
  by (auto simp: avail_def length_takeWhile_le min.coboundedI2 split: option.splits)

lemma avail_class: "j \<le> avail p hi s \<Longrightarrow> c \<in> set (take j s) \<Longrightarrow> p c"
proof -
  assume j: "j \<le> avail p hi s" and c: "c \<in> set (take j s)"
  have "j \<le> length (takeWhile p s)"
    using j by (auto simp: avail_def split: option.splits)
  then have "take j s = take j (takeWhile p s)"
    by (metis takeWhile_dropWhile_id append_eq_conv_conj append_take_drop_id take_append min.absorb1 take_all_iff length_take  order_refl take_take)
  with c show "p c"
    by (metis in_set_takeD set_takeWhileD)
qed

lemma mt_Rep_Some:
  assumes "mt (Rep p lo hi # r) prev s = Some n"
  shows "\<exists>j m. lo \<le> j \<and> j \<le> avail p hi s \<and>
           mt r (prev_at j prev s) (drop j s) = Some m \<and> n = j + m"
proof -
  from assms have "\<exists>j\<in>set (rev [lo ..< Suc (avail p hi s)]).
      map_option ((+) j) (mt r (prev_at j prev s) (drop j s)) = Some n"
    by (intro first_some_map_Some) simp
  then obtain j where j: "lo \<le> j" "j \<le> avail p hi s"
    and m: "map_option ((+) j) (mt r (prev_at j prev s) (drop j s)) = Some n"
    by auto
  from m obtain m' where "mt r (prev_at j prev s) (drop j s) = Some m'" "n = j + m'"
    by auto
  with j show ?thesis by blast
qed

lemma mt_Rep_None:
  "mt (Rep p lo hi # r) prev s = None \<longleftrightarrow>
     (\<forall>j. lo \<le> j \<and> j \<le> avail p hi s \<longrightarrow> mt r (prev_at j prev s) (drop j s) = None)"
  by (auto simp: first_some_map_None)

text \<open>The greedy choice: the longest run is tried first.\<close>

lemma mt_Rep_greedy:
  assumes "avail p hi s = k" "lo \<le> k" "mt r (prev_at k prev s) (drop k s) = Some m"
  shows "mt (Rep p lo hi # r) prev s = Some (k + m)"
  using assms by simp

text \<open>Backtracking: the runs longer than \<open>k\<close> fail, the run of length \<open>k\<close> succeeds.\<close>

lemma first_some_backtrack:
  assumes "lo \<le> k" "k \<le> n" "f k = Some y" "\<forall>j. k < j \<and> j \<le> n \<longrightarrow> f j = None"
  shows "first_some (map f (rev [lo ..< Suc n])) = Some y"
  using assms
proof (induction "n - k" arbitrary: n)
  case 0
  then have "n = k" by simp
  with 0 show ?case by simp
next
  case (Suc d)
  then have n: "k < n" "f n = None" by auto
  then obtain n' where n': "n = Suc n'" by (cases n) auto
  have "first_some (map f (rev [lo ..< Suc n'])) = Some y"
    using Suc n n' by (intro Suc.hyps(1)) auto
  moreover have "lo \<le> n" using Suc.prems n by simp
  ultimately show ?case using n n' by simp
qed

lemma mt_Rep_backtrack:
  assumes "lo \<le> k" "k \<le> avail p hi s" "mt r (prev_at k prev s) (drop k s) = Some m"
    and "\<forall>j. k < j \<and> j \<le> avail p hi s \<longrightarrow> mt r (prev_at j prev s) (drop j s) = None"
  shows "mt (Rep p lo hi # r) prev s = Some (k + m)"
proof -
  let ?f = "\<lambda>j. map_option ((+) j) (mt r (prev_at j prev s) (drop j s))"
  have "first_some (map ?f (rev [lo ..< Suc (avail p hi s)])) = Some (k + m)"
    using assms by (intro first_some_backtrack[where k = k]) auto
  then show ?thesis by simp
qed

section \<open>\<open>redact_text\<close> never raises\<close>

lemma sub_from_total:
  "(\<forall>prev s n. mt its prev s = Some n \<longrightarrow> (\<exists>x. repl (take n s) = Inr x))
     \<Longrightarrow> \<exists>r. sub_from its repl prev s = Inr r"
proof (induction its repl prev s rule: sub_from.induct)
  case (1 its repl prev)
  show ?case
  proof (cases "mt its prev []")
    case None
    then show ?thesis by simp
  next
    case (Some n)
    with 1 obtain x where "repl (take n []) = Inr x" by blast
    then show ?thesis using Some by simp
  qed
next
  case (2 its repl prev c cs)
  note total = 2(4)
  show ?case
  proof (cases "mt its prev (c # cs)")
    case None
    with 2(1)[OF None total] show ?thesis by auto
  next
    case (Some n)
    with total obtain x where x: "repl (take n (c # cs)) = Inr x" by blast
    show ?thesis
    proof (cases "n = 0")
      case True
      with 2(2)[OF Some x True total] Some x show ?thesis by auto
    next
      case False
      with 2(3)[OF Some x False total] Some x show ?thesis by auto
    qed
  qed
qed

lemma sub_from_nonempty:
  assumes "sub_from its repl prev s = Inr r" "s \<noteq> []"
    and "\<And>m x. m \<noteq> [] \<Longrightarrow> repl m = Inr x \<Longrightarrow> x \<noteq> []"
  shows "r \<noteq> []"
proof -
  from assms(2) obtain c cs where s: "s = c # cs" by (cases s) auto
  show ?thesis
  proof (cases "mt its prev (c # cs)")
    case None
    with assms(1) s show ?thesis by (auto split: sum.splits)
  next
    case (Some n)
    show ?thesis
    proof (cases "n = 0")
      case True
      with assms(1) s Some show ?thesis by (auto split: sum.splits)
    next
      case False
      then have ne: "take n (c # cs) \<noteq> []" by simp
      from assms(1) s Some False obtain x r' where
        x: "repl (take n (c # cs)) = Inr x" and r: "r = x @ r'"
        by (auto split: sum.splits)
      from assms(3)[OF ne x] r show ?thesis by simp
    qed
  qed
qed

lemma length_split_on: "length (split_on sep cur s) = Suc (length (filter (\<lambda>c. c = sep) s))"
  by (induction s arbitrary: cur) auto

lemma split_char_two: "sep \<in> set s \<Longrightarrow> 2 \<le> length (split_char sep s)"
proof -
  assume "sep \<in> set s"
  then have "filter (\<lambda>c. c = sep) s \<noteq> []"
    by (auto simp: filter_empty_conv)
  then have "0 < length (filter (\<lambda>c. c = sep) s)" by blast
  then show ?thesis unfolding split_char_def length_split_on by linarith
qed

lemma split_acc_nonempty: "w \<in> set (split_acc cur s) \<Longrightarrow> w \<noteq> []"
  by (induction cur s rule: split_acc.induct) (auto split: if_splits)

lemma split_ws_nonempty: "w \<in> set (split_ws s) \<Longrightarrow> w \<noteq> []"
  by (simp add: split_ws_def split_acc_nonempty)

lemma mask_name_total: "\<exists>x. mask_name name = Inr x \<and> x \<noteq> []"
proof (cases "2 \<le> length (split_ws name)")
  case False
  then show ?thesis by (simp add: mask_name_def)
next
  case True
  let ?parts = "split_ws name"
  from True have ne: "?parts \<noteq> []" by auto
  then have "hd ?parts \<in> set ?parts" "last ?parts \<in> set ?parts" by simp_all
  then have "hd ?parts \<noteq> []" "last ?parts \<noteq> []" by (auto dest: split_ws_nonempty)
  moreover have "?parts ! 0 = hd ?parts" using ne by (simp add: hd_conv_nth)
  ultimately show ?thesis using True ne
    by (simp add: mask_name_def index_def Let_def)
qed

lemma replace_nonempty: "s \<noteq> [] \<Longrightarrow> new \<noteq> [] \<Longrightarrow> replace old new s \<noteq> []"
  by (cases s) auto

lemma mask_names_total: "\<exists>r. mask_names names redacted = Inr r"
proof (induction names arbitrary: redacted)
  case Nil
  show ?case by simp
next
  case (Cons name names)
  obtain x where "mask_name name = Inr x" using mask_name_total by blast
  then show ?case using Cons by simp
qed

lemma mask_names_nonempty: "mask_names names redacted = Inr r \<Longrightarrow> redacted \<noteq> [] \<Longrightarrow> r \<noteq> []"
proof (induction names arbitrary: redacted)
  case Nil
  then show ?case by simp
next
  case (Cons name names)
  obtain x where x: "mask_name name = Inr x" "x \<noteq> []" using mask_name_total by blast
  with Cons.prems have "mask_names names (replace name x redacted) = Inr r" by simp
  moreover have "replace name x redacted \<noteq> []" using Cons.prems x by (simp add: replace_nonempty)
  ultimately show ?case by (rule Cons.IH)
qed

lemma mt_literal_in_match:
  "mt its prev s = Some n \<Longrightarrow> Lit c \<in> set its \<Longrightarrow> c \<in> set (take n s)"
proof (induction its arbitrary: prev s n)
  case Nil
  then show ?case by simp
next
  case (Cons it r)
  show ?case
  proof (cases it)
    case Bnd
    with Cons.prems show ?thesis by (auto split: if_splits intro: Cons.IH)
  next
    case Bos
    with Cons.prems show ?thesis by (auto split: if_splits intro: Cons.IH)
  next
    case Eos
    with Cons.prems show ?thesis by (auto split: if_splits intro: Cons.IH)
  next
    case (Rep p lo hi)
    with Cons.prems(1) obtain j m where j: "lo \<le> j" "j \<le> avail p hi s"
      and m: "mt r (prev_at j prev s) (drop j s) = Some m" and n: "n = j + m"
      using mt_Rep_Some by blast
    have split: "take n s = take j s @ take m (drop j s)"
      using n by (simp add: take_add)
    show ?thesis
    proof (cases "it = Lit c")
      case True
      with Rep have p: "p = (\<lambda>x. x = c)" and lo: "lo = 1" by simp_all
      have "j \<le> length s" using j(2) avail_le_length[of p hi s] by simp
      with j(1) lo obtain x xs where s: "s = x # xs" by (cases s) auto
      with j(1) lo have "x \<in> set (take j s)" by (cases j) auto
      with avail_class[OF j(2)] p have "x = c" by simp
      moreover have "0 < n" using j(1) lo n by simp
      then obtain n' where "n = Suc n'" using gr0_implies_Suc by blast
      ultimately show ?thesis using s by simp
    next
      case False
      with Cons.prems(2) have "Lit c \<in> set r" by simp
      from Cons.IH[OF m this] split show ?thesis by simp
    qed
  qed
qed

lemma index_split_char:
  assumes "sep \<in> set m"
  shows "\<exists>p0 p1. index (split_char sep m) 0 = Inr p0 \<and> index (split_char sep m) 1 = Inr p1"
proof -
  from split_char_two[OF assms]
  have "0 < length (split_char sep m)" "1 < length (split_char sep m)" by linarith+
  then show ?thesis unfolding index_def by simp
qed

lemma mask_upi_total: "CHR ''@'' \<in> set m \<Longrightarrow> \<exists>x. mask_upi m = Inr x \<and> x \<noteq> []"
  using index_split_char[of "CHR ''@''" m] by (auto simp: mask_upi_def)

lemma redact_email_total: "CHR ''@'' \<in> set m \<Longrightarrow> \<exists>x. redact_email m = Inr x \<and> x \<noteq> []"
  using index_split_char[of "CHR ''@''" m] by (auto simp: redact_email_def Let_def)

lemma upi_match_at: "mt patterns_upi prev s = Some n \<Longrightarrow> CHR ''@'' \<in> set (take n s)"
  by (erule mt_literal_in_match) (simp add: patterns_upi_def)

lemma email_match_at: "mt patterns_email prev s = Some n \<Longrightarrow> CHR ''@'' \<in> set (take n s)"
  by (erule mt_literal_in_match) (simp add: patterns_email_def)

lemma re_sub_total:
  "(\<forall>prev s n. mt its prev s = Some n \<longrightarrow> (\<exists>x. repl (take n s) = Inr x))
     \<Longrightarrow> \<exists>r. re_sub its repl s = Inr r"
  unfolding re_sub_def by (rule sub_from_total)

lemma re_sub_nonempty:
  assumes "re_sub its repl s = Inr r" "s \<noteq> []"
    and "\<And>m x. m \<noteq> [] \<Longrightarrow> repl m = Inr x \<Longrightarrow> x \<noteq> []"
  shows "r \<noteq> []"
  using assms unfolding re_sub_def by (rule sub_from_nonempty)

lemma sub_each_total:
  "(\<forall>m. \<exists>x. repl m = Inr x) \<Longrightarrow> \<exists>r. sub_each ps repl s = Inr r"
proof (induction ps arbitrary: s)
  case Nil
  show ?case by simp
next
  case (Cons p ps)
  have "\<forall>prev s n. mt p prev s = Some n \<longrightarrow> (\<exists>x. repl (take n s) = Inr x)"
    by (intro allI impI) (rule Cons.prems[rule_format])
  then have "\<exists>r. re_sub p repl s = Inr r" by (rule re_sub_total)
  then obtain r where "re_sub p repl s = Inr r" by blast
  with Cons.IH[OF Cons.prems, of r] show ?case by simp
qed

lemma sub_each_nonempty:
  assumes "\<And>m x. m \<noteq> [] \<Longrightarrow> repl m = Inr x \<Longrightarrow> x \<noteq> []"
  shows "sub_each ps repl s = Inr r \<Longrightarrow> s \<noteq> [] \<Longrightarrow> r \<noteq> []"
proof (induction ps arbitrary: s)
  case Nil
  then show ?case by simp
next
  case (Cons p ps)
  from Cons.prems(1) obtain r' where r': "re_sub p repl s = Inr r'" "sub_each ps repl r' = Inr r"
    by (auto split: sum.splits)
  have "r' \<noteq> []"
    using r'(1) Cons.prems(2)
  proof (rule re_sub_nonempty)
    fix m x
    assume "m \<noteq> []" "repl m = Inr x"
    then show "x \<noteq> []" by (rule assms)
  qed
  then show ?case using r'(2) by (rule Cons.IH[rotated])
qed

lemma mask_phone_variation_nonempty: "m \<noteq> [] \<Longrightarrow> mask_phone_variation m = Inr x \<Longrightarrow> x \<noteq> []"
  by (auto simp: mask_phone_variation_def)

lemma mask_phone_nonempty: "mask_phone m = Inr x \<Longrightarrow> x \<noteq> []"
  by (auto simp: mask_phone_def)

lemma redact_aadhar_nonempty: "redact_aadhar m = Inr x \<Longrightarrow> x \<noteq> []"
  by (auto simp: redact_aadhar_def split: if_splits)

lemma redact_text_total: "\<exists>r. redact_text text entity_type = Inr r"
proof (cases "text = []")
  case True
  then show ?thesis by (simp add: redact_text_def)
next
  case nonempty: False
  let ?s = "strip text"
  consider (phone) "entity_type = ''phone''" | (aadhar) "entity_type = ''aadhar''"
    | (passport) "entity_type = ''passport''" | (upi) "entity_type = ''upi''"
    | (email) "entity_type = ''email''" | (name) "entity_type = ''name''"
    | (other) "entity_type \<noteq> ''phone''" "entity_type \<noteq> ''aadhar''"
        "entity_type \<noteq> ''passport''" "entity_type \<noteq> ''upi''" "entity_type \<noteq> ''email''"
        "entity_type \<noteq> ''name''"
    by blast
  then show ?thesis
  proof cases
    case phone
    have "\<forall>m. \<exists>x. mask_phone_variation m = Inr x"
      by (simp add: mask_phone_variation_def)
    then obtain r1 where r1: "sub_each phone_variations mask_phone_variation ?s = Inr r1"
      using sub_each_total by blast
    have "\<exists>r. re_sub patterns_phone mask_phone r1 = Inr r"
      by (rule re_sub_total) (simp add: mask_phone_def)
    then obtain r2 where "re_sub patterns_phone mask_phone r1 = Inr r2" by blast
    with r1 phone nonempty show ?thesis by (simp add: redact_text_def Let_def)
  next
    case aadhar
    have "\<exists>r. re_sub patterns_aadhar redact_aadhar ?s = Inr r"
      by (rule re_sub_total) (simp add: redact_aadhar_def)
    with aadhar nonempty show ?thesis by (simp add: redact_text_def Let_def)
  next
    case passport
    have "\<exists>r. re_sub patterns_passport mask_passport ?s = Inr r"
      by (rule re_sub_total) (simp add: mask_passport_def)
    with passport nonempty show ?thesis by (simp add: redact_text_def Let_def)
  next
    case upi
    have "\<exists>r. re_sub patterns_upi mask_upi ?s = Inr r"
    proof (rule re_sub_total, intro allI impI)
      fix prev s n
      assume "mt patterns_upi prev s = Some n"
      then have "CHR ''@'' \<in> set (take n s)" by (rule upi_match_at)
      then show "\<exists>x. mask_upi (take n s) = Inr x" using mask_upi_total by blast
    qed
    with upi nonempty show ?thesis by (simp add: redact_text_def Let_def)
  next
    case email
    have "\<exists>r. re_sub patterns_email redact_email ?s = Inr r"
    proof (rule re_sub_total, intro allI impI)
      fix prev s n
      assume "mt patterns_email prev s = Some n"
      then have "CHR ''@'' \<in> set (take n s)" by (rule email_match_at)
      then show "\<exists>x. redact_email (take n s) = Inr x" using redact_email_total by blast
    qed
    with email nonempty show ?thesis by (simp add: redact_text_def Let_def)
  next
    case name
    with nonempty mask_names_total[of "extract_names ?s" ?s] show ?thesis
      by (simp add: redact_text_def Let_def)
  next
    case other
    with nonempty show ?thesis by (simp add: redact_text_def Let_def)
  qed
qed

lemma redact_text_nonempty:
  assumes "redact_text text entity_type = Inr r" "strip text \<noteq> []"
  shows "r \<noteq> []"
proof -
  let ?s = "strip text"
  from assms(2) have ne: "text \<noteq> []" by (auto simp: strip_def)
  consider (phone) "entity_type = ''phone''" | (aadhar) "entity_type = ''aadhar''"
    | (passport) "entity_type = ''passport''" | (upi) "entity_type = ''upi''"
    | (email) "entity_type = ''email''" | (name) "entity_type = ''name''"
    | (other) "entity_type \<noteq> ''phone''" "entity_type \<noteq> ''aadhar''"
        "entity_type \<noteq> ''passport''" "entity_type \<noteq> ''upi''" "entity_type \<noteq> ''email''"
        "entity_type \<noteq> ''name''"
    by blast
  then show ?thesis
  proof cases
    case phone
    with assms(1) ne obtain r1 where r1: "sub_each phone_variations mask_phone_variation ?s = Inr r1"
      and r: "re_sub patterns_phone mask_phone r1 = Inr r"
      by (auto simp: redact_text_def Let_def split: sum.splits)
    have "r1 \<noteq> []"
      using sub_each_nonempty[OF mask_phone_variation_nonempty r1 assms(2)] by simp
    with r show ?thesis
      by (rule re_sub_nonempty) (rule mask_phone_nonempty)
  next
    case aadhar
    with assms(1) ne have "re_sub patterns_aadhar redact_aadhar ?s = Inr r"
      by (simp add: redact_text_def Let_def)
    then show ?thesis using assms(2)
      by (rule re_sub_nonempty) (rule redact_aadhar_nonempty)
  next
    case passport
    with assms(1) ne have "re_sub patterns_passport mask_passport ?s = Inr r"
      by (simp add: redact_text_def Let_def)
    then show ?thesis using assms(2)
      by (rule re_sub_nonempty) (auto simp: mask_passport_def)
  next
    case upi
    with assms(1) ne have "re_sub patterns_upi mask_upi ?s = Inr r"
      by (simp add: redact_text_def Let_def)
    then show ?thesis using assms(2)
      by (rule re_sub_nonempty)
         (auto simp: mask_upi_def split: sum.splits)
  next
    case email
    with assms(1) ne have "re_sub patterns_email redact_email ?s = Inr r"
      by (simp add: redact_text_def Let_def)
    then show ?thesis using assms(2)
      by (rule re_sub_nonempty)
         (auto simp: redact_email_def Let_def split: sum.splits if_splits)
  next
    case name
    with assms(1) ne have "mask_names (extract_names ?s) ?s = Inr r"
      by (simp add: redact_text_def Let_def)
    then show ?thesis using assms(2) by (rule mask_names_nonempty)
  next
    case other
    with assms ne show ?thesis
      by (simp add: redact_text_def Let_def)
  qed
qed

section \<open>The loop over the fields\<close>

lemma standalone_hit:
  "\<exists>r. standalone key sv = Inr (standalone_fires key sv, r) \<and> (\<not> standalone_fires key sv \<longrightarrow> r = sv)"
proof -
  obtain r1 r2 r3 r4 where
    "redact_text sv ''phone'' = Inr r1" "redact_text sv ''aadhar'' = Inr r2"
    "redact_text sv ''passport'' = Inr r3" "redact_text sv ''upi'' = Inr r4"
    using redact_text_total by meson
  then show ?thesis
    by (simp add: standalone_def standalone_fires_def)
qed

lemma collect_has_pii [simp]: "has_pii (collect data key sv st) = has_pii st"
  by (simp add: collect_def)

lemma collect_redacted_data [simp]: "redacted_data (collect data key sv st) = redacted_data st"
  by (simp add: collect_def)

lemma collect_element_type:
  "name_el (collect data key sv st) =
     name_el st @ (if element_type_of data key sv = Some ''name'' then [key] else [])"
  "email_el (collect data key sv st) =
     email_el st @ (if element_type_of data key sv = Some ''email'' then [key] else [])"
  "address_el (collect data key sv st) =
     address_el st @ (if element_type_of data key sv = Some ''address'' then [key] else [])"
  "device_id_el (collect data key sv st) =
     device_id_el st @ (if element_type_of data key sv = Some ''device_id'' then [key] else [])"
  "ip_address_el (collect data key sv st) =
     ip_address_el st @ (if element_type_of data key sv = Some ''ip_address'' then [key] else [])"
  by (simp_all add: collect_def element_type_of_def)


lemma scan_field_skipped:
  "skipped v \<Longrightarrow>
   scan_field data st key v = Inr (st\<lparr>redacted_data := AList.update key v (redacted_data st)\<rparr>)"
  by (auto simp: scan_field_def skipped_def)

lemma scan_field_kept:
  assumes "\<not> skipped v"
  shows "\<exists>r. standalone key (strip (py_str v)) = Inr (standalone_fires key (strip (py_str v)), r) \<and>
    scan_field data st key v =
      Inr ((collect data key (strip (py_str v))
              (st\<lparr>has_pii := has_pii st \<or> standalone_fires key (strip (py_str v))\<rparr>))
            \<lparr>redacted_data := AList.update key (PStr r) (redacted_data st)\<rparr>)"
proof -
  obtain r where "standalone key (strip (py_str v)) = Inr (standalone_fires key (strip (py_str v)), r)"
    using standalone_hit by blast
  with assms show ?thesis
    by (simp add: scan_field_def skipped_def Let_def)
qed

lemma scan_field_total: "\<exists>st'. scan_field data st key v = Inr st'"
  using scan_field_skipped[of v data st key] scan_field_kept[of v key data st] by (cases "skipped v") auto

lemma scan_field_has_pii:
  "scan_field data st key v = Inr st' \<Longrightarrow>
   has_pii st' = (has_pii st \<or> (\<not> skipped v \<and> standalone_fires key (strip (py_str v))))"
  using scan_field_skipped[of v data st key] scan_field_kept[of v key data st]
  by (cases "skipped v") auto

lemma scan_field_els:
  assumes "scan_field data st key v = Inr st'"
  shows "name_el st' = name_el st @ (if in_el ''name'' data (key, v) then [key] else [])"
    and "email_el st' = email_el st @ (if in_el ''email'' data (key, v) then [key] else [])"
    and "address_el st' = address_el st @ (if in_el ''address'' data (key, v) then [key] else [])"
    and "device_id_el st' = device_id_el st @ (if in_el ''device_id'' data (key, v) then [key] else [])"
    and "ip_address_el st' = ip_address_el st @ (if in_el ''ip_address'' data (key, v) then [key] else [])"
  using assms scan_field_skipped[of v data st key] scan_field_kept[of v key data st]
  by (cases "skipped v"; auto simp: in_el_def collect_element_type)+

lemma scan_field_redacted_data:
  assumes "scan_field data st key v = Inr st'"
  shows "\<exists>w. redacted_data st' = AList.update key w (redacted_data st) \<and>
           (skipped v \<longrightarrow> w = v) \<and>
           (\<not> skipped v \<longrightarrow> (\<exists>r. standalone key (strip (py_str v)) =
                                      Inr (standalone_fires key (strip (py_str v)), r) \<and> w = PStr r))"
  using assms scan_field_skipped[of v data st key] scan_field_kept[of v key data st]
  by (cases "skipped v") auto

lemma scan_fields_total: "\<exists>st'. scan_fields data st fs = Inr st'"
proof (induction fs arbitrary: st)
  case Nil
  show ?case by simp
next
  case (Cons kv fs)
  obtain k v where kv: "kv = (k, v)" by (cases kv)
  obtain st1 where "scan_field data st k v = Inr st1" using scan_field_total by blast
  with Cons[of st1] kv show ?case by simp
qed

lemma scan_fields_Cons:
  assumes "scan_fields data st ((k, v) # fs) = Inr st'"
  shows "\<exists>st1. scan_field data st k v = Inr st1 \<and> scan_fields data st1 fs = Inr st'"
  using assms by (auto split: sum.splits)

lemma scan_fields_has_pii:
  "scan_fields data st fs = Inr st' \<Longrightarrow>
   has_pii st' = (has_pii st \<or> (\<exists>(k, v)\<in>set fs. \<not> skipped v \<and> standalone_fires k (strip (py_str v))))"
proof (induction fs arbitrary: st)
  case Nil
  then show ?case by simp
next
  case (Cons kv fs)
  obtain k v where kv: "kv = (k, v)" by (cases kv)
  from Cons.prems kv obtain st1 where st1: "scan_field data st k v = Inr st1"
    and rest: "scan_fields data st1 fs = Inr st'"
    using scan_fields_Cons by blast
  from Cons.IH[OF rest] scan_field_has_pii[OF st1] kv show ?case by auto
qed

lemma scan_fields_el:
  assumes step: "\<And>st k v st1. scan_field data st k v = Inr st1 \<Longrightarrow>
                   el st1 = el st @ (if in_el t data (k, v) then [k] else [])"
  shows "scan_fields data st fs = Inr st' \<Longrightarrow> el st' = el st @ map fst (filter (in_el t data) fs)"
proof (induction fs arbitrary: st)
  case Nil
  then show ?case by simp
next
  case (Cons kv fs)
  obtain k v where kv: "kv = (k, v)" by (cases kv)
  from Cons.prems kv obtain st1 where st1: "scan_field data st k v = Inr st1"
    and rest: "scan_fields data st1 fs = Inr st'"
    using scan_fields_Cons by blast
  from Cons.IH[OF rest] step[OF st1] kv show ?case by simp
qed

lemma scan_fields_els:
  assumes "scan_fields data st fs = Inr st'"
  shows "name_el st' = name_el st @ map fst (filter (in_el ''name'' data) fs)"
    and "email_el st' = email_el st @ map fst (filter (in_el ''email'' data) fs)"
    and "address_el st' = address_el st @ map fst (filter (in_el ''address'' data) fs)"
    and "device_id_el st' = device_id_el st @ map fst (filter (in_el ''device_id'' data) fs)"
    and "ip_address_el st' = ip_address_el st @ map fst (filter (in_el ''ip_address'' data) fs)"
proof -
  show "name_el st' = name_el st @ map fst (filter (in_el ''name'' data) fs)"
    using assms by (rule scan_fields_el[rotated]) (erule scan_field_els(1))
  show "email_el st' = email_el st @ map fst (filter (in_el ''email'' data) fs)"
    using assms by (rule scan_fields_el[rotated]) (erule scan_field_els(2))
  show "address_el st' = address_el st @ map fst (filter (in_el ''address'' data) fs)"
    using assms by (rule scan_fields_el[rotated]) (erule scan_field_els(3))
  show "device_id_el st' = device_id_el st @ map fst (filter (in_el ''device_id'' data) fs)"
    using assms by (rule scan_fields_el[rotated]) (erule scan_field_els(4))
  show "ip_address_el st' = ip_address_el st @ map fst (filter (in_el ''ip_address'' data) fs)"
    using assms by (rule scan_fields_el[rotated]) (erule scan_field_els(5))
qed

lemma scan_fields_keys:
  "scan_fields data st fs = Inr st' \<Longrightarrow> distinct (map fst (redacted_data st) @ map fst fs) \<Longrightarrow>
   map fst (redacted_data st') = map fst (redacted_data st) @ map fst fs"
proof (induction fs arbitrary: st)
  case Nil
  then show ?case by simp
next
  case (Cons kv fs)
  obtain k v where kv: "kv = (k, v)" by (cases kv)
  from Cons.prems(1) kv obtain st1 where st1: "scan_field data st k v = Inr st1"
    and rest: "scan_fields data st1 fs = Inr st'"
    using scan_fields_Cons by blast
  from scan_field_redacted_data[OF st1] obtain w where
    w: "redacted_data st1 = AList.update k w (redacted_data st)" by blast
  have fresh: "k \<notin> set (map fst (redacted_data st))" using Cons.prems(2) kv by auto
  have keys1: "map fst (redacted_data st1) = map fst (redacted_data st) @ [k]"
    using w fresh by (simp add: update_keys)
  have "distinct (map fst (redacted_data st1) @ map fst fs)"
    using Cons.prems(2) kv keys1 by auto
  from Cons.IH[OF rest this] keys1 kv show ?case by simp
qed

lemma scan_fields_other:
  "scan_fields data st fs = Inr st' \<Longrightarrow> k \<notin> fst ` set fs \<Longrightarrow>
   map_of (redacted_data st') k = map_of (redacted_data st) k"
proof (induction fs arbitrary: st)
  case Nil
  then show ?case by simp
next
  case (Cons kv fs)
  obtain k' v where kv: "kv = (k', v)" by (cases kv)
  from Cons.prems(1) kv obtain st1 where st1: "scan_field data st k' v = Inr st1"
    and rest: "scan_fields data st1 fs = Inr st'"
    using scan_fields_Cons by blast
  from scan_field_redacted_data[OF st1] obtain w where
    w: "redacted_data st1 = AList.update k' w (redacted_data st)" by blast
  have "k \<noteq> k'" "k \<notin> fst ` set fs" using Cons.prems(2) kv by auto
  with Cons.IH[OF rest] w show ?case by (simp add: update_conv')
qed

lemma scan_fields_value:
  assumes "scan_fields data st fs = Inr st'" "distinct (map fst fs)" "(k, v) \<in> set fs"
  shows "\<exists>w. map_of (redacted_data st') k = Some w \<and>
           (skipped v \<longrightarrow> w = v) \<and>
           (\<not> skipped v \<longrightarrow> (\<exists>r. standalone k (strip (py_str v)) =
                                      Inr (standalone_fires k (strip (py_str v)), r) \<and> w = PStr r))"
  using assms
proof (induction fs arbitrary: st)
  case Nil
  then show ?case by simp
next
  case (Cons kv fs)
  obtain k' v' where kv: "kv = (k', v')" by (cases kv)
  from Cons.prems(1) kv obtain st1 where st1: "scan_field data st k' v' = Inr st1"
    and rest: "scan_fields data st1 fs = Inr st'"
    using scan_fields_Cons by blast
  show ?case
  proof (cases "(k, v) \<in> set fs")
    case True
    with Cons.IH[OF rest] Cons.prems(2) show ?thesis by simp
  next
    case False
    with Cons.prems(3) kv have eq: "k' = k" "v' = v" by auto
    have "k \<notin> fst ` set fs" using Cons.prems(2) kv eq by auto
    from scan_fields_other[OF rest this]
    have same: "map_of (redacted_data st') k = map_of (redacted_data st1) k" .
    from scan_field_redacted_data[OF st1] eq obtain w where
      w: "redacted_data st1 = AList.update k w (redacted_data st)"
      "skipped v \<longrightarrow> w = v"
      "\<not> skipped v \<longrightarrow> (\<exists>r. standalone k (strip (py_str v)) =
                                      Inr (standalone_fires k (strip (py_str v)), r) \<and> w = PStr r)"
      by blast
    from w(1) same have "map_of (redacted_data st') k = Some w" by (simp add: update_conv')
    with w(2,3) show ?thesis by blast
  qed
qed

section \<open>The redaction of the combinatorial elements\<close>

lemma upper_device_id: "upper ''device_id'' = ''DEVICE_ID''"
  by code_simp

lemma upper_ip_address: "upper ''ip_address'' = ''IP_ADDRESS''"
  by code_simp

lemma map_of_Some_key: "map_of d k = Some v \<Longrightarrow> k \<in> set (map fst d)"
  by (metis map_of_eq_None_iff option.distinct(1) set_map)

lemma redact_field_cases:
  assumes "redact_field t d f = Inr d'"
  shows "d' = d \<or> (\<exists>w. map_of d f \<noteq> None \<and> d' = AList.update f w d)"
  using assms
  by (auto simp: redact_field_def split: option.splits if_splits sum.splits)

lemma redact_field_total: "\<exists>d'. redact_field t d f = Inr d'"
proof (cases "map_of d f")
  case None
  then show ?thesis by (simp add: redact_field_def)
next
  case (Some v)
  obtain r1 r2 where "redact_text (py_str v) ''name'' = Inr r1" "redact_text (py_str v) ''email'' = Inr r2"
    using redact_text_total by meson
  with Some show ?thesis by (simp add: redact_field_def)
qed

lemma redact_field_keys: "redact_field t d f = Inr d' \<Longrightarrow> map fst d' = map fst d"
  using redact_field_cases[of t d f d']
  by (auto simp: update_keys dest: map_of_Some_key)

lemma redact_field_other: "redact_field t d f = Inr d' \<Longrightarrow> k \<noteq> f \<Longrightarrow> map_of d' k = map_of d k"
  using redact_field_cases[of t d f d'] by (auto simp: update_conv')

lemma redact_field_name:
  assumes "redact_field ''name'' d f = Inr d'" "map_of d f = Some v"
  shows "\<exists>m. redact_text (py_str v) ''name'' = Inr m \<and> map_of d' f = Some (PStr m)"
  using assms by (auto simp: redact_field_def update_conv' split: sum.splits)

lemma redact_field_email:
  assumes "redact_field ''email'' d f = Inr d'" "map_of d f = Some v"
  shows "\<exists>m. redact_text (py_str v) ''email'' = Inr m \<and> map_of d' f = Some (PStr m)"
  using assms by (auto simp: redact_field_def update_conv' split: sum.splits)

lemma redact_field_address: "redact_field ''address'' d f = Inr d' \<Longrightarrow> d' = d"
  by (auto simp: redact_field_def split: option.splits)

lemma redact_field_device_id:
  assumes "redact_field ''device_id'' d f = Inr d'" "map_of d f = Some v"
  shows "map_of d' f = Some (PStr ''[REDACTED_DEVICE_ID]'')"
  using assms by (auto simp: redact_field_def update_conv' upper_device_id)

lemma redact_field_ip_address:
  assumes "redact_field ''ip_address'' d f = Inr d'" "map_of d f = Some v"
  shows "map_of d' f = Some (PStr ''[REDACTED_IP_ADDRESS]'')"
  using assms by (auto simp: redact_field_def update_conv' upper_ip_address)

lemma redact_fields_Cons:
  assumes "redact_fields t d (f # fs) = Inr d'"
  shows "\<exists>d1. redact_field t d f = Inr d1 \<and> redact_fields t d1 fs = Inr d'"
  using assms by (auto split: sum.splits)

lemma redact_fields_total: "\<exists>d'. redact_fields t d fs = Inr d'"
proof (induction fs arbitrary: d)
  case Nil
  show ?case by simp
next
  case (Cons f fs)
  obtain d1 where "redact_field t d f = Inr d1" using redact_field_total by blast
  with Cons[of d1] show ?case by simp
qed

lemma redact_fields_keys: "redact_fields t d fs = Inr d' \<Longrightarrow> map fst d' = map fst d"
proof (induction fs arbitrary: d)
  case Nil
  then show ?case by simp
next
  case (Cons f fs)
  from redact_fields_Cons[OF Cons.prems] obtain d1 where
    d1: "redact_field t d f = Inr d1" "redact_fields t d1 fs = Inr d'" by blast
  from Cons.IH[OF d1(2)] redact_field_keys[OF d1(1)] show ?case by simp
qed

lemma redact_fields_other:
  "redact_fields t d fs = Inr d' \<Longrightarrow> k \<notin> set fs \<Longrightarrow> map_of d' k = map_of d k"
proof (induction fs arbitrary: d)
  case Nil
  then show ?case by simp
next
  case (Cons f fs)
  from redact_fields_Cons[OF Cons.prems(1)] obtain d1 where
    d1: "redact_field t d f = Inr d1" "redact_fields t d1 fs = Inr d'" by blast
  from Cons.prems(2) have "k \<noteq> f" "k \<notin> set fs" by auto
  with Cons.IH[OF d1(2)] redact_field_other[OF d1(1)] show ?case by simp
qed

text \<open>
  A key of a list without repetition is redacted once: its final value is the one
  \<open>redact_field\<close> computes from its value before the loop.
\<close>

lemma redact_fields_at:
  assumes "redact_fields t d fs = Inr d'" "distinct fs" "k \<in> set fs"
  shows "\<exists>d0 d1. map_of d0 k = map_of d k \<and> redact_field t d0 k = Inr d1 \<and> map_of d' k = map_of d1 k"
  using assms
proof (induction fs arbitrary: d)
  case Nil
  then show ?case by simp
next
  case (Cons f fs)
  from redact_fields_Cons[OF Cons.prems(1)] obtain d1 where
    d1: "redact_field t d f = Inr d1" "redact_fields t d1 fs = Inr d'" by blast
  show ?case
  proof (cases "k = f")
    case True
    with Cons.prems(2) have "k \<notin> set fs" by simp
    from redact_fields_other[OF d1(2) this] d1(1) True show ?thesis by blast
  next
    case False
    with Cons.prems have "distinct fs" "k \<in> set fs" by auto
    from Cons.IH[OF d1(2) this] obtain d0 d2 where
      "map_of d0 k = map_of d1 k" "redact_field t d0 k = Inr d2" "map_of d' k = map_of d2 k"
      by blast
    moreover have "map_of d1 k = map_of d k" using redact_field_other[OF d1(1) False] .
    ultimately show ?thesis by auto
  qed
qed

text \<open>The five loops of \<open>redact_elements\<close> over \<open>combinatorial_items\<close>, one after the other.\<close>

lemma redact_elements_items:
  assumes "redact_elements d (combinatorial_items st) = Inr d'"
  shows "\<exists>d1 d2 d3 d4.
           redact_fields ''name'' d (name_el st) = Inr d1 \<and>
           redact_fields ''email'' d1 (email_el st) = Inr d2 \<and>
           redact_fields ''address'' d2 (address_el st) = Inr d3 \<and>
           redact_fields ''device_id'' d3 (device_id_el st) = Inr d4 \<and>
           redact_fields ''ip_address'' d4 (ip_address_el st) = Inr d'"
  using assms by (auto simp: combinatorial_items_def split: sum.splits)

lemma redact_elements_total: "\<exists>d'. redact_elements d its = Inr d'"
proof (induction its arbitrary: d)
  case Nil
  show ?case by simp
next
  case (Cons it its)
  obtain t fs where it: "it = (t, fs)" by (cases it)
  obtain d1 where "redact_fields t d fs = Inr d1" using redact_fields_total by blast
  with Cons[of d1] it show ?case by simp
qed

lemma redact_elements_keys: "redact_elements d its = Inr d' \<Longrightarrow> map fst d' = map fst d"
proof (induction its arbitrary: d)
  case Nil
  then show ?case by simp
next
  case (Cons it its)
  obtain t fs where it: "it = (t, fs)" by (cases it)
  from Cons.prems it obtain d1 where d1: "redact_fields t d fs = Inr d1" "redact_elements d1 its = Inr d'"
    by (auto split: sum.splits)
  from Cons.IH[OF d1(2)] redact_fields_keys[OF d1(1)] show ?case by simp
qed

text \<open>The result of \<open>analyze_record\<close>, by the number of non-empty lists.\<close>

lemma analyze_record_result:
  "\<exists>st. scan_fields data init data = Inr st \<and>
     (if 2 \<le> combinatorial_count st
      then \<exists>d. redact_elements (redacted_data st) (combinatorial_items st) = Inr d \<and>
               analyze_record data = Inr (True, d)
      else analyze_record data = Inr (has_pii st, redacted_data st))"
proof -
  obtain st where st: "scan_fields data init data = Inr st" using scan_fields_total by blast
  obtain d where "redact_elements (redacted_data st) (combinatorial_items st) = Inr d"
    using redact_elements_total by blast
  with st show ?thesis by (auto simp: analyze_record_def)
qed

lemma init_fields [simp]:
  "has_pii init = False" "redacted_data init = []" "name_el init = []" "email_el init = []"
  "address_el init = []" "device_id_el init = []" "ip_address_el init = []"
  by (simp_all add: init_def)

lemma scan_init_els:
  assumes "scan_fields data init data = Inr st"
  shows "name_el st = map fst (filter (in_el ''name'' data) data)"
    and "email_el st = map fst (filter (in_el ''email'' data) data)"
    and "address_el st = map fst (filter (in_el ''address'' data) data)"
    and "device_id_el st = map fst (filter (in_el ''device_id'' data) data)"
    and "ip_address_el st = map fst (filter (in_el ''ip_address'' data) data)"
  using scan_fields_els[OF assms] by simp_all

lemma filter_nonempty_list_ex: "(map fst (filter P xs) \<noteq> []) = list_ex P xs"
  by (simp add: filter_empty_conv list_ex_iff)

lemma combinatorial_count_el_count:
  assumes "scan_fields data init data = Inr st"
  shows "combinatorial_count st = el_count data"
proof -
  note els = scan_init_els[OF assms]
  have e: "(name_el st \<noteq> []) = list_ex (in_el ''name'' data) data"
    "(email_el st \<noteq> []) = list_ex (in_el ''email'' data) data"
    "(address_el st \<noteq> []) = list_ex (in_el ''address'' data) data"
    "(device_id_el st \<noteq> []) = list_ex (in_el ''device_id'' data) data"
    "(ip_address_el st \<noteq> []) = list_ex (in_el ''ip_address'' data) data"
    unfolding els by (rule filter_nonempty_list_ex)+
  have "combinatorial_count st =
      length (filter id [name_el st \<noteq> [], email_el st \<noteq> [], address_el st \<noteq> [],
                         device_id_el st \<noteq> [], ip_address_el st \<noteq> []])"
    by (simp add: combinatorial_count_def combinatorial_items_def)
  also have "\<dots> = length (filter id [list_ex (in_el ''name'' data) data,
      list_ex (in_el ''email'' data) data, list_ex (in_el ''address'' data) data,
      list_ex (in_el ''device_id'' data) data, list_ex (in_el ''ip_address'' data) data])"
    by (simp only: e)
  also have "\<dots> = el_count data"
    by (simp add: el_count_def)
  finally show ?thesis .
qed

lemma el_member:
  assumes "distinct (map fst data)" "(k, v) \<in> set data"
  shows "k \<in> set (map fst (filter (in_el t data) data)) \<longleftrightarrow> in_el t data (k, v)"
proof
  assume "k \<in> set (map fst (filter (in_el t data) data))"
  then obtain v' where v': "(k, v') \<in> set data" "in_el t data (k, v')" by auto
  from assms v'(1) have "v' = v" by (meson eq_key_imp_eq_value)
  with v'(2) show "in_el t data (k, v)" by simp
next
  assume "in_el t data (k, v)"
  with assms(2) show "k \<in> set (map fst (filter (in_el t data) data))" by force
qed

lemma el_distinct: "distinct (map fst data) \<Longrightarrow> distinct (map fst (filter P data))"
  by (rule distinct_map_filter)

lemma redact_fields_address: "redact_fields ''address'' d fs = Inr d' \<Longrightarrow> d' = d"
proof (induction fs arbitrary: d)
  case Nil
  then show ?case by simp
next
  case (Cons f fs)
  from redact_fields_Cons[OF Cons.prems] obtain d1 where
    d1: "redact_field ''address'' d f = Inr d1" "redact_fields ''address'' d1 fs = Inr d'" by blast
  from Cons.IH[OF d1(2)] redact_field_address[OF d1(1)] show ?case by simp
qed

lemma redact_fields_name:
  assumes "redact_fields ''name'' d fs = Inr d'" "distinct fs" "k \<in> set fs" "map_of d k = Some w"
  shows "\<exists>m. redact_text (py_str w) ''name'' = Inr m \<and> map_of d' k = Some (PStr m)"
proof -
  from redact_fields_at[OF assms(1-3)] obtain d0 d1 where
    d: "map_of d0 k = map_of d k" "redact_field ''name'' d0 k = Inr d1" "map_of d' k = map_of d1 k"
    by blast
  from redact_field_name[OF d(2)] d(1,3) assms(4) show ?thesis by simp
qed

lemma redact_fields_email:
  assumes "redact_fields ''email'' d fs = Inr d'" "distinct fs" "k \<in> set fs" "map_of d k = Some w"
  shows "\<exists>m. redact_text (py_str w) ''email'' = Inr m \<and> map_of d' k = Some (PStr m)"
proof -
  from redact_fields_at[OF assms(1-3)] obtain d0 d1 where
    d: "map_of d0 k = map_of d k" "redact_field ''email'' d0 k = Inr d1" "map_of d' k = map_of d1 k"
    by blast
  from redact_field_email[OF d(2)] d(1,3) assms(4) show ?thesis by simp
qed

lemma redact_fields_device_id:
  assumes "redact_fields ''device_id'' d fs = Inr d'" "distinct fs" "k \<in> set fs" "map_of d k = Some w"
  shows "map_of d' k = Some (PStr ''[REDACTED_DEVICE_ID]'')"
proof -
  from redact_fields_at[OF assms(1-3)] obtain d0 d1 where
    d: "map_of d0 k = map_of d k" "redact_field ''device_id'' d0 k = Inr d1" "map_of d' k = map_of d1 k"
    by blast
  from redact_field_device_id[OF d(2)] d(1,3) assms(4) show ?thesis by simp
qed

lemma redact_fields_ip_address:
  assumes "redact_fields ''ip_address'' d fs = Inr d'" "distinct fs" "k \<in> set fs" "map_of d k = Some w"
  shows "map_of d' k = Some (PStr ''[REDACTED_IP_ADDRESS]'')"
proof -
  from redact_fields_at[OF assms(1-3)] obtain d0 d1 where
    d: "map_of d0 k = map_of d k" "redact_field ''ip_address'' d0 k = Inr d1" "map_of d' k = map_of d1 k"
    by blast
  from redact_field_ip_address[OF d(2)] d(1,3) assms(4) show ?thesis by simp
qed

lemma in_el_unique: "in_el t data kv \<Longrightarrow> in_el t' data kv \<Longrightarrow> t = t'"
  by (simp add: in_el_def)

text \<open>The value of a key after the five loops, by the list the key is in.\<close>

lemma redact_elements_value:
  assumes dist: "distinct (map fst data)" and kv: "(k, v) \<in> set data"
    and st: "scan_fields data init data = Inr st"
    and d': "redact_elements (redacted_data st) (combinatorial_items st) = Inr d'"
    and w: "map_of (redacted_data st) k = Some w"
  shows "in_el ''name'' data (k, v) \<Longrightarrow>
           \<exists>m. redact_text (py_str w) ''name'' = Inr m \<and> map_of d' k = Some (PStr m)"
    and "in_el ''email'' data (k, v) \<Longrightarrow>
           \<exists>m. redact_text (py_str w) ''email'' = Inr m \<and> map_of d' k = Some (PStr m)"
    and "in_el ''device_id'' data (k, v) \<Longrightarrow> map_of d' k = Some (PStr ''[REDACTED_DEVICE_ID]'')"
    and "in_el ''ip_address'' data (k, v) \<Longrightarrow> map_of d' k = Some (PStr ''[REDACTED_IP_ADDRESS]'')"
    and "\<not> in_el ''name'' data (k, v) \<Longrightarrow> \<not> in_el ''email'' data (k, v) \<Longrightarrow>
         \<not> in_el ''device_id'' data (k, v) \<Longrightarrow> \<not> in_el ''ip_address'' data (k, v) \<Longrightarrow>
         map_of d' k = Some w"
proof -
  note els = scan_init_els[OF st]
  from redact_elements_items[OF d'] obtain d1 d2 d3 d4 where
    l1: "redact_fields ''name'' (redacted_data st) (name_el st) = Inr d1" and
    l2: "redact_fields ''email'' d1 (email_el st) = Inr d2" and
    l3: "redact_fields ''address'' d2 (address_el st) = Inr d3" and
    l4: "redact_fields ''device_id'' d3 (device_id_el st) = Inr d4" and
    l5: "redact_fields ''ip_address'' d4 (ip_address_el st) = Inr d'"
    by blast
  have mem: "k \<in> set (name_el st) \<longleftrightarrow> in_el ''name'' data (k, v)"
    "k \<in> set (email_el st) \<longleftrightarrow> in_el ''email'' data (k, v)"
    "k \<in> set (device_id_el st) \<longleftrightarrow> in_el ''device_id'' data (k, v)"
    "k \<in> set (ip_address_el st) \<longleftrightarrow> in_el ''ip_address'' data (k, v)"
    unfolding els by (rule el_member[OF dist kv])+
  have dis: "distinct (name_el st)" "distinct (email_el st)" "distinct (device_id_el st)"
    "distinct (ip_address_el st)"
    unfolding els by (rule el_distinct[OF dist])+
  have d3: "d3 = d2" using redact_fields_address[OF l3] .
  {
    assume a: "in_el ''name'' data (k, v)"
    then have no: "\<not> in_el ''email'' data (k, v)" "\<not> in_el ''device_id'' data (k, v)"
      "\<not> in_el ''ip_address'' data (k, v)"
      by (auto dest: in_el_unique)
    from a mem(1) have "k \<in> set (name_el st)" by simp
    from redact_fields_name[OF l1 dis(1) this w] obtain m where
      m: "redact_text (py_str w) ''name'' = Inr m" "map_of d1 k = Some (PStr m)" by blast
    have "map_of d2 k = map_of d1 k" using redact_fields_other[OF l2] no(1) mem(2) by simp
    moreover have "map_of d4 k = map_of d3 k" using redact_fields_other[OF l4] no(2) mem(3) by simp
    moreover have "map_of d' k = map_of d4 k" using redact_fields_other[OF l5] no(3) mem(4) by simp
    ultimately show "\<exists>m. redact_text (py_str w) ''name'' = Inr m \<and> map_of d' k = Some (PStr m)"
      using m d3 by simp
  }
  {
    assume a: "in_el ''email'' data (k, v)"
    then have no: "\<not> in_el ''name'' data (k, v)" "\<not> in_el ''device_id'' data (k, v)"
      "\<not> in_el ''ip_address'' data (k, v)"
      by (auto dest: in_el_unique)
    have "map_of d1 k = Some w" using redact_fields_other[OF l1] no(1) mem(1) w by simp
    moreover from a mem(2) have "k \<in> set (email_el st)" by simp
    ultimately obtain m where
      m: "redact_text (py_str w) ''email'' = Inr m" "map_of d2 k = Some (PStr m)"
      using redact_fields_email[OF l2 dis(2)] by blast
    have "map_of d4 k = map_of d3 k" using redact_fields_other[OF l4] no(2) mem(3) by simp
    moreover have "map_of d' k = map_of d4 k" using redact_fields_other[OF l5] no(3) mem(4) by simp
    ultimately show "\<exists>m. redact_text (py_str w) ''email'' = Inr m \<and> map_of d' k = Some (PStr m)"
      using m d3 by simp
  }
  {
    assume a: "in_el ''device_id'' data (k, v)"
    then have no: "\<not> in_el ''name'' data (k, v)" "\<not> in_el ''email'' data (k, v)"
      "\<not> in_el ''ip_address'' data (k, v)"
      by (auto dest: in_el_unique)
    have "map_of d1 k = Some w" using redact_fields_other[OF l1] no(1) mem(1) w by simp
    moreover have "map_of d2 k = map_of d1 k" using redact_fields_other[OF l2] no(2) mem(2) by simp
    ultimately have "map_of d3 k = Some w" using d3 by simp
    moreover from a mem(3) have "k \<in> set (device_id_el st)" by simp
    ultimately have "map_of d4 k = Some (PStr ''[REDACTED_DEVICE_ID]'')"
      using redact_fields_device_id[OF l4 dis(3)] by blast
    moreover have "map_of d' k = map_of d4 k" using redact_fields_other[OF l5] no(3) mem(4) by simp
    ultimately show "map_of d' k = Some (PStr ''[REDACTED_DEVICE_ID]'')" by simp
  }
  {
    assume a: "in_el ''ip_address'' data (k, v)"
    then have no: "\<not> in_el ''name'' data (k, v)" "\<not> in_el ''email'' data (k, v)"
      "\<not> in_el ''device_id'' data (k, v)"
      by (auto dest: in_el_unique)
    have "map_of d1 k = Some w" using redact_fields_other[OF l1] no(1) mem(1) w by simp
    moreover have "map_of d2 k = map_of d1 k" using redact_fields_other[OF l2] no(2) mem(2) by simp
    moreover have "map_of d4 k = map_of d3 k" using redact_fields_other[OF l4] no(3) mem(3) by simp
    ultimately have "map_of d4 k = Some w" using d3 by simp
    moreover from a mem(4) have "k \<in> set (ip_address_el st)" by simp
    ultimately show "map_of d' k = Some (PStr ''[REDACTED_IP_ADDRESS]'')"
      using redact_fields_ip_address[OF l5 dis(4)] by blast
  }
  {
    assume no: "\<not> in_el ''name'' data (k, v)" "\<not> in_el ''email'' data (k, v)"
      "\<not> in_el ''device_id'' data (k, v)" "\<not> in_el ''ip_address'' data (k, v)"
    have "map_of d1 k = Some w" using redact_fields_other[OF l1] no(1) mem(1) w by simp
    moreover have "map_of d2 k = map_of d1 k" using redact_fields_other[OF l2] no(2) mem(2) by simp
    moreover have "map_of d4 k = map_of d3 k" using redact_fields_other[OF l4] no(3) mem(3) by simp
    moreover have "map_of d' k = map_of d4 k" using redact_fields_other[OF l5] no(4) mem(4) by simp
    ultimately show "map_of d' k = Some w" using d3 by simp
  }
qed

lemma scan_init_value:
  assumes "distinct (map fst data)" "(k, v) \<in> set data" "scan_fields data init data = Inr st"
  shows "\<exists>w x. map_of (redacted_data st) k = Some w \<and>
           (skipped v \<longrightarrow> w = v) \<and>
           (\<not> skipped v \<longrightarrow>
              standalone k (strip (py_str v)) = Inr (standalone_fires k (strip (py_str v)), x) \<and>
              w = PStr x \<and> (\<not> standalone_fires k (strip (py_str v)) \<longrightarrow> x = strip (py_str v)))"
proof -
  from scan_fields_value[OF assms(3,1,2)] obtain w where
    w: "map_of (redacted_data st) k = Some w" "skipped v \<longrightarrow> w = v"
      "\<not> skipped v \<longrightarrow> (\<exists>r. standalone k (strip (py_str v)) =
                                      Inr (standalone_fires k (strip (py_str v)), r) \<and> w = PStr r)"
    by blast
  show ?thesis
  proof (cases "skipped v")
    case True
    with w show ?thesis by blast
  next
    case False
    with w(3) obtain r where r: "standalone k (strip (py_str v)) =
        Inr (standalone_fires k (strip (py_str v)), r)" "w = PStr r" by blast
    from standalone_hit[of k "strip (py_str v)"] r(1)
    have "\<not> standalone_fires k (strip (py_str v)) \<longrightarrow> r = strip (py_str v)" by auto
    with w(1) r False show ?thesis by blast
  qed
qed

section \<open>Matches of the patterns\<close>

lemma mt_Rep_zero:
  assumes "mt (Rep p lo hi # r) prev s = Some 0"
  shows "lo = 0"
  using mt_Rep_Some[OF assms] by auto

text \<open>At any position, a match of one of the patterns is not empty.\<close>

lemma mt_patterns_positive:
  "mt patterns_phone prev s \<noteq> Some 0" "mt patterns_aadhar prev s \<noteq> Some 0"
  "mt patterns_passport prev s \<noteq> Some 0" "mt patterns_upi prev s \<noteq> Some 0"
  "mt patterns_email prev s \<noteq> Some 0" "mt name_pattern prev s \<noteq> Some 0"
  "\<forall>p\<in>set phone_variations. mt p prev s \<noteq> Some 0"
proof -
  have bnd: "mt (Bnd # Rep p lo hi # r) prev s \<noteq> Some 0" if "lo \<noteq> 0" for p lo hi r
    using that mt_Rep_zero[of p lo hi r prev s] by (auto split: if_splits)
  show "mt patterns_phone prev s \<noteq> Some 0" unfolding patterns_phone_def by (rule bnd) simp
  show "mt patterns_aadhar prev s \<noteq> Some 0" unfolding patterns_aadhar_def by (rule bnd) simp
  show "mt patterns_passport prev s \<noteq> Some 0" unfolding patterns_passport_def by (rule bnd) simp
  show "mt patterns_upi prev s \<noteq> Some 0" unfolding patterns_upi_def by (rule bnd) simp
  show "mt patterns_email prev s \<noteq> Some 0" unfolding patterns_email_def by (rule bnd) simp
  show "mt name_pattern prev s \<noteq> Some 0" unfolding name_pattern_def by (rule bnd) simp
  show "\<forall>p\<in>set phone_variations. mt p prev s \<noteq> Some 0"
    unfolding phone_variations_def using bnd by simp
qed

lemma is_digit_word: "is_digit c \<Longrightarrow> is_word c"
  by (simp add: is_word_def Let_def)

lemma is_alpha_word: "is_alpha c \<Longrightarrow> is_word c"
  by (simp add: is_word_def Let_def)

lemma is_space_not_word: "is_space c \<Longrightarrow> \<not> is_word c"
  unfolding is_space_def is_word_def Let_def is_alpha_def is_lower_def is_upper_def is_digit_def
  by (elim insertE emptyE) simp_all

lemma is_word_not_space: "is_word c \<Longrightarrow> \<not> is_space c"
  using is_space_not_word by blast

lemma is_digit_not_space: "is_digit c \<Longrightarrow> \<not> is_space c"
  using is_digit_word is_space_not_word by blast

lemma is_alpha_not_space: "is_alpha c \<Longrightarrow> \<not> is_space c"
  using is_alpha_word is_space_not_word by blast

lemma strip_id:
  assumes "s \<noteq> []" "\<not> is_space (hd s)" "\<not> is_space (last s)"
  shows "strip s = s"
proof -
  from assms(1,2) have 1: "dropWhile is_space s = s" by (cases s) auto
  from assms(1,3) have "dropWhile is_space (rev s) = rev s"
    by (cases "rev s") (auto simp: last_rev hd_rev[symmetric])
  with 1 show ?thesis by (simp add: strip_def)
qed

lemma takeWhile_run:
  assumes "\<forall>c\<in>set xs. p c" "ys = [] \<or> \<not> p (hd ys)"
  shows "takeWhile p (xs @ ys) = xs"
proof -
  from assms(2) have "takeWhile p ys = []" by (cases ys) auto
  with assms(1) show ?thesis by (simp add: takeWhile_append2)
qed

lemma avail_run:
  assumes "\<forall>c\<in>set xs. p c" "ys = [] \<or> \<not> p (hd ys)"
  shows "avail p None (xs @ ys) = length xs" "avail p (Some h) (xs @ ys) = min h (length xs)"
  using takeWhile_run[OF assms] by (simp_all add: avail_def)

lemma prev_at_run: "prev_at (length xs) prev (xs @ ys) = (if xs = [] then prev else Some (last xs))"
  by (cases xs rule: rev_cases) (simp_all add: prev_at_def nth_append)

text \<open>A greedy class that is followed by a character outside it takes the whole run.\<close>

lemma mt_Rep_run:
  assumes "\<forall>c\<in>set xs. p c" "ys = [] \<or> \<not> p (hd ys)" "xs \<noteq> []" "lo \<le> length xs"
    and "mt r (Some (last xs)) ys = Some m"
  shows "mt (Rep p lo None # r) prev (xs @ ys) = Some (length xs + m)"
proof (rule mt_Rep_greedy)
  show "avail p None (xs @ ys) = length xs" using avail_run(1)[OF assms(1,2)] .
  show "lo \<le> length xs" by fact
  show "mt r (prev_at (length xs) prev (xs @ ys)) (drop (length xs) (xs @ ys)) = Some m"
    using assms(3,5) by (simp add: prev_at_run)
qed

lemma mt_One:
  assumes "p c" "mt r (Some c) cs = Some m"
  shows "mt (One p # r) prev (c # cs) = Some (Suc m)"
proof -
  have "avail p (Some 1) (c # cs) = 1" using assms(1) by (simp add: avail_def)
  moreover have "mt r (prev_at 1 prev (c # cs)) (drop 1 (c # cs)) = Some m"
    using assms(2) by (simp add: prev_at_def)
  ultimately have "mt (One p # r) prev (c # cs) = Some (1 + m)"
    by (intro mt_Rep_greedy) simp_all
  then show ?thesis by simp
qed

lemma mt_Rep_short: "avail p hi s < lo \<Longrightarrow> mt (Rep p lo hi # r) prev s = None"
  by simp

lemma mt_One_fail: "s = [] \<or> \<not> p (hd s) \<Longrightarrow> mt (One p # r) prev s = None"
proof -
  assume "s = [] \<or> \<not> p (hd s)"
  then have "takeWhile p s = []" by (cases s) auto
  then have "avail p (Some 1) s < 1" by (simp add: avail_def)
  then show ?thesis by (rule mt_Rep_short)
qed

subsection \<open>The name pattern\<close>

lemma split_acc_word:
  "\<forall>c\<in>set w. \<not> is_space c \<Longrightarrow> split_acc cur (w @ rest) = split_acc (cur @ w) rest"
  by (induction w arbitrary: cur) auto

lemma split_acc_spaces:
  "\<forall>c\<in>set ws. is_space c \<Longrightarrow> ws \<noteq> [] \<Longrightarrow> cur \<noteq> [] \<Longrightarrow>
   split_acc cur (ws @ rest) = cur # split_acc [] (dropWhile is_space rest)"
proof (induction ws arbitrary: cur)
  case Nil
  then show ?case by simp
next
  case (Cons c ws)
  have skip: "split_acc [] (xs @ rest) = split_acc [] (dropWhile is_space rest)"
    if "\<forall>c\<in>set xs. is_space c" for xs
    using that
  proof (induction xs)
    case Nil
    show ?case
    proof (induction rest)
      case Nil
      show ?case by simp
    next
      case (Cons r rest)
      then show ?case by simp
    qed
  next
    case (Cons x xs)
    then show ?case by simp
  qed
  from Cons.prems have "split_acc cur ((c # ws) @ rest) = cur # split_acc [] (ws @ rest)" by simp
  also have "\<dots> = cur # split_acc [] (dropWhile is_space rest)"
    using skip[of ws] Cons.prems(1) by simp
  finally show ?case .
qed

lemma split_ws_two_words:
  assumes "w1 \<noteq> []" "\<forall>c\<in>set w1. \<not> is_space c" "ws \<noteq> []" "\<forall>c\<in>set ws. is_space c"
    "w2 \<noteq> []" "\<forall>c\<in>set w2. \<not> is_space c"
  shows "split_ws (w1 @ ws @ w2) = [w1, w2]"
proof -
  have "split_ws (w1 @ ws @ w2) = split_acc w1 (ws @ w2)"
    using split_acc_word[OF assms(2), of "[]" "ws @ w2"] by (simp add: split_ws_def)
  also have "\<dots> = w1 # split_acc [] (dropWhile is_space w2)"
    using split_acc_spaces[OF assms(4,3,1)] by simp
  also have "dropWhile is_space w2 = w2" using assms(5,6) by (cases w2) auto
  also have "split_acc [] w2 = split_acc w2 []"
    using split_acc_word[OF assms(6), of "[]" "[]"] by simp
  finally show ?thesis using assms(5) by simp
qed

lemma is_upper_alpha: "is_upper c \<Longrightarrow> is_alpha c"
  by (simp add: is_alpha_def)

lemma is_lower_alpha: "is_lower c \<Longrightarrow> is_alpha c"
  by (simp add: is_alpha_def)

lemma is_space_not_lower: "is_space c \<Longrightarrow> \<not> is_lower c"
  using is_alpha_not_space is_lower_alpha by blast

lemma is_upper_not_space: "is_upper c \<Longrightarrow> \<not> is_space c"
  using is_alpha_not_space is_upper_alpha by blast

lemma is_lower_not_space: "is_lower c \<Longrightarrow> \<not> is_space c"
  using is_alpha_not_space is_lower_alpha by blast

text \<open>
  The name pattern on a text of two capitalised words with white space between them: it
  matches the whole text.
\<close>

lemma name_pattern_two_words:
  assumes u1: "is_upper u1" and l1: "l1 \<noteq> []" "\<forall>c\<in>set l1. is_lower c"
    and ws: "ws \<noteq> []" "\<forall>c\<in>set ws. is_space c"
    and u2: "is_upper u2" and l2: "l2 \<noteq> []" "\<forall>c\<in>set l2. is_lower c"
  shows "mt name_pattern None (u1 # l1 @ ws @ u2 # l2) = Some (length (u1 # l1 @ ws @ u2 # l2))"
proof -
  have wl2: "is_word (last l2)" using l2 by (simp add: is_alpha_word is_lower_alpha)
  have e6: "mt [Bnd] (Some (last l2)) [] = Some 0"
    using wl2 by (simp add: boundary_def)
  have e5: "mt [Rep is_lower 1 None, Bnd] (Some u2) l2 = Some (length l2)"
    using mt_Rep_run[of l2 is_lower "[]" 1 "[Bnd]" 0 "Some u2"] l2 e6
    by (simp add: Suc_le_eq)
  have e4: "mt [One is_upper, Rep is_lower 1 None, Bnd] (Some (last ws)) (u2 # l2) = Some (Suc (length l2))"
    using mt_One[where p = is_upper and c = u2, OF u2 e5] .
  have e3: "mt [Rep is_space 1 None, One is_upper, Rep is_lower 1 None, Bnd] (Some (last l1))
              (ws @ u2 # l2) = Some (length ws + Suc (length l2))"
    using mt_Rep_run[of ws is_space "u2 # l2" 1 _ _ "Some (last l1)", OF _ _ _ _ e4] ws u2
    by (simp add: Suc_le_eq is_upper_not_space)
  have ws_hd: "\<not> is_lower (hd (ws @ u2 # l2))"
    using ws by (cases ws) (auto simp: is_space_not_lower)
  have e2: "mt [Rep is_lower 1 None, Rep is_space 1 None, One is_upper, Rep is_lower 1 None, Bnd]
              (Some u1) (l1 @ ws @ u2 # l2) = Some (length l1 + (length ws + Suc (length l2)))"
    using mt_Rep_run[of l1 is_lower "ws @ u2 # l2" 1 _ _ "Some u1", OF _ _ _ _ e3] l1 ws_hd
    by (simp add: Suc_le_eq)
  have e1: "mt [One is_upper, Rep is_lower 1 None, Rep is_space 1 None, One is_upper,
                Rep is_lower 1 None, Bnd] None (u1 # l1 @ ws @ u2 # l2)
            = Some (Suc (length l1 + (length ws + Suc (length l2))))"
    using mt_One[where p = is_upper and c = u1, OF u1 e2] .
  have "boundary None (u1 # l1 @ ws @ u2 # l2)"
    using u1 by (simp add: boundary_def is_alpha_word is_upper_alpha)
  with e1 show ?thesis by (simp add: name_pattern_def)
qed

lemma name_pattern_not_empty: "mt name_pattern prev [] = None"
  by (simp add: name_pattern_def avail_def)

lemma findall_whole:
  assumes "s \<noteq> []" "mt its None s = Some (length s)" "mt its (Some (last s)) [] = None"
  shows "re_findall its s = [s]"
proof -
  from assms(1) obtain c cs where s: "s = c # cs" by (cases s) auto
  have "(c # cs) ! length cs = last (c # cs)"
    by (metis last_conv_nth length_Cons diff_Suc_1 list.distinct(1))
  with assms(2,3) s show ?thesis
    by (simp add: re_findall_def)
qed

lemma extract_names_two_words:
  assumes u1: "is_upper u1" and l1: "l1 \<noteq> []" "\<forall>c\<in>set l1. is_lower c"
    and ws: "ws \<noteq> []" "\<forall>c\<in>set ws. is_space c"
    and u2: "is_upper u2" and l2: "l2 \<noteq> []" "\<forall>c\<in>set l2. is_lower c"
  shows "extract_names ((u1 # l1) @ ws @ (u2 # l2)) =
    (if lower (u1 # l1) \<in> set stoplist \<or> lower (u2 # l2) \<in> set stoplist then []
     else [(u1 # l1) @ ws @ (u2 # l2)])"
proof -
  let ?s = "(u1 # l1) @ ws @ (u2 # l2)"
  have last_s: "last ?s = last l2" using l2 by simp
  have "\<not> is_space (hd ?s)" using u1 by (simp add: is_upper_not_space)
  moreover have "\<not> is_space (last ?s)" using l2 last_s by (simp add: is_lower_not_space)
  ultimately have strip: "strip ?s = ?s" by (intro strip_id) simp_all
  have "mt name_pattern None ?s = Some (length ?s)"
    using name_pattern_two_words[OF assms] by simp
  then have found: "re_findall name_pattern ?s = [?s]"
    by (intro findall_whole) (simp_all add: name_pattern_not_empty)
  have words: "split_ws (u1 # l1 @ ws @ u2 # l2) = [u1 # l1, u2 # l2]"
    using split_ws_two_words[of "u1 # l1" ws "u2 # l2"] u1 l1 ws u2 l2
    by (simp add: is_upper_not_space is_lower_not_space)
  show ?thesis
    unfolding extract_names_def Let_def strip found
    by (simp add: words)
qed

subsection \<open>The email pattern\<close>

lemma mt_Lit:
  assumes "mt r (Some c) cs = Some m"
  shows "mt (Lit c # r) prev (c # cs) = Some (Suc m)"
  using mt_One[where p = "\<lambda>x. x = c" and c = c, OF _ assms] by simp

lemma split_on_no_sep: "sep \<notin> set s \<Longrightarrow> split_on sep cur s = [cur @ s]"
  by (induction s arbitrary: cur) auto

lemma split_char_once:
  assumes "sep \<notin> set l" "sep \<notin> set r"
  shows "split_char sep (l @ sep # r) = [l, r]"
proof -
  have "split_on sep cur (l @ sep # r) = [cur @ l, r]" for cur
    using assms(1)
  proof (induction l arbitrary: cur)
    case Nil
    then show ?case using split_on_no_sep[OF assms(2), of "[]"] by simp
  next
    case (Cons x l)
    then show ?case by auto
  qed
  from this[of "[]"] show ?thesis by (simp add: split_char_def)
qed

lemma at_not_local: "\<not> email_local (CHR ''@'')"
  by (simp add: email_local_def is_alpha_def is_lower_def is_upper_def is_digit_def)

lemma dot_not_alpha: "\<not> is_alpha (CHR ''.'')"
  by (simp add: is_alpha_def is_lower_def is_upper_def)

lemma at_not_domain: "\<not> email_domain (CHR ''@'')"
  by (simp add: email_domain_def is_alpha_def is_lower_def is_upper_def is_digit_def)

text \<open>
  The email pattern on \<open>l@d.t\<close>: the class of the domain first takes \<open>d.t\<close> whole and
  gives back \<open>.t\<close>, the shortest suffix after which a dot follows.
\<close>

lemma email_tail:
  assumes d: "d \<noteq> []" "\<forall>c\<in>set d. email_domain c"
    and t: "2 \<le> length t" "\<forall>c\<in>set t. is_alpha c"
  shows "mt [Rep email_domain 1 None, Lit (CHR ''.''), Rep is_alpha 2 None, Bnd] (Some (CHR ''@''))
            (d @ CHR ''.'' # t) = Some (length d + Suc (length t))"
proof -
  let ?r = "[Lit (CHR ''.''), Rep is_alpha 2 None, Bnd]"
  let ?s = "d @ CHR ''.'' # t"
  from t have tne: "t \<noteq> []" by auto
  have all: "\<forall>c\<in>set ?s. email_domain c"
    using d t by (auto simp: email_domain_def)
  have av: "avail email_domain None ?s = length ?s"
    using avail_run(1)[of ?s email_domain "[]"] all by simp
  have e3: "mt [Bnd] (Some (last t)) [] = Some 0"
    using t tne by (simp add: boundary_def is_alpha_word)
  have e2: "mt [Rep is_alpha 2 None, Bnd] (Some (CHR ''.'')) t = Some (length t)"
    using mt_Rep_run[of t is_alpha "[]" 2 "[Bnd]" 0 "Some (CHR ''.'')"] t tne e3 by simp
  have ok: "mt ?r (prev_at (length d) (Some (CHR ''@'')) ?s) (drop (length d) ?s) = Some (Suc (length t))"
    using mt_Lit[OF e2] by simp
  have fail: "mt ?r (prev_at j (Some (CHR ''@'')) ?s) (drop j ?s) = None"
    if j: "length d < j" "j \<le> avail email_domain None ?s" for j
  proof -
    have "j - length d = Suc (j - Suc (length d))" using j(1) by simp
    then have "drop j ?s = drop (j - Suc (length d)) t" by simp
    then have "drop j ?s = [] \<or> hd (drop j ?s) \<in> set t"
      by (metis hd_in_set in_set_dropD)
    then have "drop j ?s = [] \<or> hd (drop j ?s) \<noteq> CHR ''.''"
      using t(2) dot_not_alpha by auto
    then show ?thesis by (rule mt_One_fail)
  qed
  have "mt (Rep email_domain 1 None # ?r) (Some (CHR ''@'')) ?s = Some (length d + Suc (length t))"
    using d(1) av ok fail
    by (intro mt_Rep_backtrack) (auto simp: Suc_le_eq)
  then show ?thesis .
qed

lemma email_whole:
  assumes l: "l \<noteq> []" "\<forall>c\<in>set l. email_local c" "is_word (hd l)"
    and d: "d \<noteq> []" "\<forall>c\<in>set d. email_domain c"
    and t: "2 \<le> length t" "\<forall>c\<in>set t. is_alpha c"
  shows "mt patterns_email None (l @ CHR ''@'' # d @ CHR ''.'' # t)
           = Some (length (l @ CHR ''@'' # d @ CHR ''.'' # t))"
proof -
  let ?s = "l @ CHR ''@'' # d @ CHR ''.'' # t"
  have e2: "mt [Lit (CHR ''@''), Rep email_domain 1 None, Lit (CHR ''.''), Rep is_alpha 2 None, Bnd]
              (Some (last l)) (CHR ''@'' # d @ CHR ''.'' # t) = Some (Suc (length d + Suc (length t)))"
    using mt_Lit[OF email_tail[OF d t]] .
  have e1: "mt [Rep email_local 1 None, Lit (CHR ''@''), Rep email_domain 1 None, Lit (CHR ''.''),
                Rep is_alpha 2 None, Bnd] None ?s
            = Some (length l + Suc (length d + Suc (length t)))"
    using mt_Rep_run[of l email_local "CHR ''@'' # d @ CHR ''.'' # t" 1 _ _ None, OF _ _ _ _ e2] l
    by (simp add: at_not_local Suc_le_eq)
  have "boundary None ?s" using l by (cases l) (auto simp: boundary_def)
  with e1 show ?thesis
    by (simp add: patterns_email_def)
qed

lemma patterns_email_not_empty: "mt patterns_email prev [] = None"
  by (simp add: patterns_email_def avail_def)

lemma sub_whole:
  assumes "s \<noteq> []" "mt its None s = Some (length s)" "mt its (Some (last s)) [] = None"
  shows "re_sub its repl s = repl s"
proof -
  from assms(1) obtain c cs where s: "s = c # cs" by (cases s) auto
  have "(c # cs) ! length cs = last (c # cs)"
    by (metis last_conv_nth length_Cons diff_Suc_1 list.distinct(1))
  with assms(2,3) s show ?thesis
    by (auto simp: re_sub_def split: sum.splits)
qed

lemma redact_text_email_short:
  assumes l: "l \<noteq> []" "length l \<le> 3" "\<forall>c\<in>set l. email_local c" "is_word (hd l)"
    and d: "d \<noteq> []" "\<forall>c\<in>set d. email_domain c"
    and t: "2 \<le> length t" "\<forall>c\<in>set t. is_alpha c"
  shows "redact_text (l @ ''@'' @ d @ ''.'' @ t) ''email'' = Inr (''XXX@'' @ d @ ''.'' @ t)"
proof -
  let ?s = "l @ CHR ''@'' # d @ CHR ''.'' # t"
  from t have tne: "t \<noteq> []" by auto
  have "\<not> is_space (hd ?s)" using l by (cases l) (auto simp: is_word_not_space)
  moreover have "\<not> is_space (last ?s)" using t tne by (simp add: is_alpha_not_space)
  ultimately have strip: "strip ?s = ?s" by (intro strip_id) simp_all
  have whole: "mt patterns_email None ?s = Some (length ?s)"
    using email_whole[OF l(1,3,4) d t] .
  have sub: "re_sub patterns_email redact_email ?s = redact_email ?s"
    using whole by (intro sub_whole) (simp_all add: patterns_email_not_empty)
  have "CHR ''@'' \<notin> set l" using l(3) at_not_local by auto
  moreover have "CHR ''@'' \<notin> set (d @ CHR ''.'' # t)"
    using d(2) t(2) at_not_domain by (auto simp: email_domain_def)
  ultimately have "split_char (CHR ''@'') ?s = [l, d @ CHR ''.'' # t]"
    by (rule split_char_once)
  then have "redact_email ?s = Inr (''XXX@'' @ d @ CHR ''.'' # t)"
    using l(2) by (simp add: redact_email_def index_def)
  with sub strip show ?thesis
    by (simp add: redact_text_def)
qed

subsection \<open>The Aadhar pattern\<close>

lemma digit_2_9_digit: "digit_2_9 c \<Longrightarrow> is_digit c"
  by (auto simp: digit_2_9_def is_digit_def)

lemma space_is_space: "is_space (CHR '' '')"
  by (simp add: is_space_def)

lemma is_digit_not_blank: "is_digit c \<Longrightarrow> c \<noteq> CHR '' ''"
  using is_digit_not_space space_is_space by blast

lemma list4: "length xs = 4 \<Longrightarrow> \<exists>a b c d. xs = [a, b, c, d]"
  by (auto simp: length_Suc_conv numeral_eq_Suc)

lemma patterns_aadhar_not_empty: "mt patterns_aadhar prev [] = None"
  by (simp add: patterns_aadhar_def avail_def)

text \<open>The Aadhar pattern on twelve digits, with each of the two optional spaces present or not.\<close>

lemma aadhar_match:
  assumes "digit_2_9 a1" "is_digit a2" "is_digit a3" "is_digit a4"
    "is_digit b1" "is_digit b2" "is_digit b3" "is_digit b4"
    "is_digit c1" "is_digit c2" "is_digit c3" "is_digit c4"
  shows "mt patterns_aadhar None [a1, a2, a3, a4, CHR '' '', b1, b2, b3, b4, CHR '' '', c1, c2, c3, c4] = Some 14"
    and "mt patterns_aadhar None [a1, a2, a3, a4, b1, b2, b3, b4, c1, c2, c3, c4] = Some 12"
    and "mt patterns_aadhar None [a1, a2, a3, a4, CHR '' '', b1, b2, b3, b4, c1, c2, c3, c4] = Some 13"
    and "mt patterns_aadhar None [a1, a2, a3, a4, b1, b2, b3, b4, CHR '' '', c1, c2, c3, c4] = Some 13"
  using assms
  by (simp_all add: patterns_aadhar_def boundary_def avail_def prev_at_def is_digit_word
      digit_2_9_digit space_is_space is_digit_not_space)

lemma redact_text_aadhar_whole:
  assumes "mt patterns_aadhar None s = Some (length s)" "s \<noteq> []"
    "is_digit (hd s)" "is_digit (last s)"
  shows "redact_text s ''aadhar'' = redact_aadhar s"
proof -
  have "strip s = s"
    using assms(2-4) by (intro strip_id) (simp_all add: is_digit_not_space)
  moreover have "re_sub patterns_aadhar redact_aadhar s = redact_aadhar s"
    using assms(1,2) by (intro sub_whole) (simp_all add: patterns_aadhar_not_empty)
  ultimately show ?thesis using assms(2) by (simp add: redact_text_def)
qed

lemma redact_text_aadhar_groups:
  assumes a: "length a = 4" "digit_2_9 (hd a)" "\<forall>x\<in>set a. is_digit x"
    and b: "length b = 4" "\<forall>x\<in>set b. is_digit x"
    and c: "length c = 4" "\<forall>x\<in>set c. is_digit x"
  shows "redact_text (a @ '' '' @ b @ '' '' @ c) ''aadhar'' = Inr (''XXXX XXXX '' @ c)"
    and "redact_text (a @ b @ c) ''aadhar'' = Inr (''XXXXXXXX'' @ c)"
    and "redact_text (a @ '' '' @ b @ c) ''aadhar'' = Inr (''XXXX XXXX '' @ c)"
    and "redact_text (a @ b @ '' '' @ c) ''aadhar'' = Inr (''XXXX XXXX '' @ c)"
proof -
  from list4[OF a(1)] obtain a1 a2 a3 a4 where a': "a = [a1, a2, a3, a4]" by blast
  from list4[OF b(1)] obtain b1 b2 b3 b4 where b': "b = [b1, b2, b3, b4]" by blast
  from list4[OF c(1)] obtain c1 c2 c3 c4 where c': "c = [c1, c2, c3, c4]" by blast
  have dig: "digit_2_9 a1" "is_digit a1" "is_digit a2" "is_digit a3" "is_digit a4"
    "is_digit b1" "is_digit b2" "is_digit b3" "is_digit b4"
    "is_digit c1" "is_digit c2" "is_digit c3" "is_digit c4"
    using a b c a' b' c' by (simp_all add: digit_2_9_digit)
  note m = aadhar_match[OF dig(1) dig(3-13)]
  note nb = dig(2-13)[THEN is_digit_not_blank]
  show "redact_text (a @ '' '' @ b @ '' '' @ c) ''aadhar'' = Inr (''XXXX XXXX '' @ c)"
    unfolding a' b' c'
    using redact_text_aadhar_whole[of "[a1, a2, a3, a4, CHR '' '', b1, b2, b3, b4, CHR '' '', c1, c2, c3, c4]"]
      m(1) dig
    by (simp add: redact_aadhar_def)
  show "redact_text (a @ b @ c) ''aadhar'' = Inr (''XXXXXXXX'' @ c)"
    unfolding a' b' c'
    using redact_text_aadhar_whole[of "[a1, a2, a3, a4, b1, b2, b3, b4, c1, c2, c3, c4]"]
      m(2) dig nb
    by (simp add: redact_aadhar_def)
  show "redact_text (a @ '' '' @ b @ c) ''aadhar'' = Inr (''XXXX XXXX '' @ c)"
    unfolding a' b' c'
    using redact_text_aadhar_whole[of "[a1, a2, a3, a4, CHR '' '', b1, b2, b3, b4, c1, c2, c3, c4]"]
      m(3) dig
    by (simp add: redact_aadhar_def)
  show "redact_text (a @ b @ '' '' @ c) ''aadhar'' = Inr (''XXXX XXXX '' @ c)"
    unfolding a' b' c'
    using redact_text_aadhar_whole[of "[a1, a2, a3, a4, b1, b2, b3, b4, CHR '' '', c1, c2, c3, c4]"]
      m(4) dig
    by (simp add: redact_aadhar_def)
qed

subsection \<open>The UPI pattern, and records of one field\<close>






lemma mt_class_hit: "p c \<Longrightarrow> mt [Rep p (Suc 0) (Some (Suc 0))] prev (c # cs) = Some (Suc 0)"
  using mt_One[where p = p and c = c and r = "[]" and cs = cs and m = 0 and prev = prev]
  by (simp del: mt.simps) simp

lemma mt_class_miss:
  "s = [] \<or> \<not> p (hd s) \<Longrightarrow> mt [Rep p (Suc 0) (Some (Suc 0))] prev s = None"
  using mt_One_fail[where p = p and s = s and r = "[]" and prev = prev]
  by (simp del: mt.simps)

text \<open>Substituting the empty string for every character of a class deletes the class.\<close>

lemma sub_delete_class: "re_sub [One p] (\<lambda>m. Inr []) s = Inr (filter (\<lambda>c. \<not> p c) s)"
proof -
  have "sub_from [One p] (\<lambda>m. Inr []) prev s = Inr (filter (\<lambda>c. \<not> p c) s)" for prev
  proof (induction s arbitrary: prev)
    case Nil
    show ?case by (simp add: mt_class_miss del: mt.simps)
  next
    case (Cons c cs)
    show ?case
    proof (cases "p c")
      case True
      with Cons[of "Some c"] show ?thesis by (simp add: mt_class_hit del: mt.simps)
    next
      case False
      with Cons[of "Some c"] show ?thesis by (simp add: mt_class_miss del: mt.simps)
    qed
  qed
  then show ?thesis by (simp add: re_sub_def)
qed




subsection \<open>The UPI pattern on an email\<close>








section \<open>The claims\<close>

text \<open>
  In the statements, \<open>data\<close> is the record as the list of its fields in order; a Python
  dictionary has no key twice, which is the hypothesis \<open>distinct (map fst data)\<close>.
  \<open>map_of r k\<close> is \<open>r[k]\<close>.
\<close>

text \<open>
  C1 (as amended). When at least two of the five lists are non-empty after the loop over
  the fields, \<open>has_pii\<close> is true, and a field that the loop put on a list is treated by
  the list it is on. With \<open>x\<close> the value the field has after the loop (its stripped text,
  or the standalone mask of it): a field of the name list gets \<open>redact_text(x, 'name')\<close>, a
  field of the email list gets \<open>redact_text(x, 'email')\<close>, a field of the
  \<open>device_id\<close> or the \<open>ip_address\<close> list gets the fixed token of that list. A field of
  the address list
  (keys \<open>address\<close>, \<open>city\<close>, \<open>pin_code\<close>, \<open>state\<close>) keeps \<open>x\<close>: the
  address list has no mask and its fields are not redacted by this step.
\<close>

theorem combinatorial_redaction:
  assumes "distinct (map fst data)" "(k, v) \<in> set data" "2 \<le> el_count data"
  shows "\<exists>r x. analyze_record data = Inr (True, r) \<and>
     (\<not> skipped v \<longrightarrow>
        standalone k (strip (py_str v)) = Inr (standalone_fires k (strip (py_str v)), x)) \<and>
     (in_el ''name'' data (k, v) \<longrightarrow>
        (\<exists>m. redact_text x ''name'' = Inr m \<and> map_of r k = Some (PStr m))) \<and>
     (in_el ''email'' data (k, v) \<longrightarrow>
        (\<exists>m. redact_text x ''email'' = Inr m \<and> map_of r k = Some (PStr m))) \<and>
     (in_el ''device_id'' data (k, v) \<longrightarrow> map_of r k = Some (PStr ''[REDACTED_DEVICE_ID]'')) \<and>
     (in_el ''ip_address'' data (k, v) \<longrightarrow> map_of r k = Some (PStr ''[REDACTED_IP_ADDRESS]'')) \<and>
     (in_el ''address'' data (k, v) \<longrightarrow> map_of r k = Some (PStr x))"
proof -
  from analyze_record_result[of data] obtain st where st: "scan_fields data init data = Inr st"
    and res: "if 2 \<le> combinatorial_count st
      then \<exists>d. redact_elements (redacted_data st) (combinatorial_items st) = Inr d \<and>
               analyze_record data = Inr (True, d)
      else analyze_record data = Inr (has_pii st, redacted_data st)"
    by blast
  from combinatorial_count_el_count[OF st] assms(3) res obtain d where
    d: "redact_elements (redacted_data st) (combinatorial_items st) = Inr d"
      "analyze_record data = Inr (True, d)" by auto
  from scan_init_value[OF assms(1,2) st] obtain w x where
    w: "map_of (redacted_data st) k = Some w"
      "\<not> skipped v \<longrightarrow>
         standalone k (strip (py_str v)) = Inr (standalone_fires k (strip (py_str v)), x) \<and> w = PStr x"
    by blast
  note val = redact_elements_value[OF assms(1,2) st d(1) w(1)]
  have wx: "w = PStr x" if "in_el t data (k, v)" for t
    using that w(2) by (simp add: in_el_def)
  have 1: "in_el ''name'' data (k, v) \<longrightarrow>
        (\<exists>m. redact_text x ''name'' = Inr m \<and> map_of d k = Some (PStr m))"
    using val(1) wx by fastforce
  have 2: "in_el ''email'' data (k, v) \<longrightarrow>
        (\<exists>m. redact_text x ''email'' = Inr m \<and> map_of d k = Some (PStr m))"
    using val(2) wx by fastforce
  have 3: "in_el ''device_id'' data (k, v) \<longrightarrow> map_of d k = Some (PStr ''[REDACTED_DEVICE_ID]'')"
    using val(3) by blast
  have 4: "in_el ''ip_address'' data (k, v) \<longrightarrow> map_of d k = Some (PStr ''[REDACTED_IP_ADDRESS]'')"
    using val(4) by blast
  have 5: "in_el ''address'' data (k, v) \<longrightarrow> map_of d k = Some (PStr x)"
  proof
    assume a: "in_el ''address'' data (k, v)"
    then have "\<not> in_el ''name'' data (k, v)" "\<not> in_el ''email'' data (k, v)"
      "\<not> in_el ''device_id'' data (k, v)" "\<not> in_el ''ip_address'' data (k, v)"
      by (auto dest: in_el_unique)
    from val(5)[OF this] wx[OF a] show "map_of d k = Some (PStr x)" by simp
  qed
  from d(2) w(2) 1 2 3 4 5 show ?thesis by blast
qed

text \<open>
  The amended C1 at a record with a name, a city and an email: the email field of the
  result is the email mask of its value.
\<close>

theorem combinatorial_redaction_witness:
  "distinct (map fst [(''name'', PStr ''Rahul Sharma''), (''city'', PStr ''Mumbai''), (''email'', PStr ''rahul@x.com'')]) \<and>
   (''email'', PStr ''rahul@x.com'') \<in> set [(''name'', PStr ''Rahul Sharma''), (''city'', PStr ''Mumbai''), (''email'', PStr ''rahul@x.com'')] \<and>
   2 \<le> el_count [(''name'', PStr ''Rahul Sharma''), (''city'', PStr ''Mumbai''), (''email'', PStr ''rahul@x.com'')] \<and>
   (\<exists>r. analyze_record [(''name'', PStr ''Rahul Sharma''), (''city'', PStr ''Mumbai''), (''email'', PStr ''rahul@x.com'')] = Inr (True, r) \<and>
        map_of r ''email'' = Some (PStr ''rahXXX@x.com''))"
proof -
  let ?D = "[(''name'', PStr ''Rahul Sharma''), (''city'', PStr ''Mumbai''), (''email'', PStr ''rahul@x.com'')]"
  have h1: "distinct (map fst ?D)" by simp
  have h2: "(''email'', PStr ''rahul@x.com'') \<in> set ?D" by simp
  have h3: "2 \<le> el_count ?D" by code_simp
  have e: "in_el ''email'' ?D (''email'', PStr ''rahul@x.com'')" by code_simp
  have s: "standalone ''email'' (strip (py_str (PStr ''rahul@x.com''))) = Inr (False, ''rahul@x.com'')"
    by code_simp
  have m: "redact_text ''rahul@x.com'' ''email'' = Inr ''rahXXX@x.com''" by code_simp
  from combinatorial_redaction[OF h1 h2 h3] e obtain r x where
    r: "analyze_record ?D = Inr (True, r)"
      "\<not> skipped (PStr ''rahul@x.com'') \<longrightarrow> standalone ''email'' (strip (py_str (PStr ''rahul@x.com''))) =
          Inr (standalone_fires ''email'' (strip (py_str (PStr ''rahul@x.com''))), x)"
      "\<exists>m. redact_text x ''email'' = Inr m \<and> map_of r ''email'' = Some (PStr m)"
    by blast
  have "\<not> skipped (PStr ''rahul@x.com'')" by (simp add: skipped_def)
  with r(2) s have "x = ''rahul@x.com''" by simp
  with r(3) m have "map_of r ''email'' = Some (PStr ''rahXXX@x.com'')" by simp
  with h1 h2 h3 r(1) show ?thesis by blast
qed

text \<open>
  C1 as stated fails: with the address and the email list non-empty, the field \<open>city\<close>
  of the address list is returned as it was.
\<close>

theorem address_unredacted_counterexample:
  "2 \<le> el_count [(''city'', PStr ''Mumbai''), (''email'', PStr ''rahul@x.com'')] \<and>
   in_el ''address'' [(''city'', PStr ''Mumbai''), (''email'', PStr ''rahul@x.com'')] (''city'', PStr ''Mumbai'') \<and>
   analyze_record [(''city'', PStr ''Mumbai''), (''email'', PStr ''rahul@x.com'')] =
     Inr (True, [(''city'', PStr ''Mumbai''), (''email'', PStr ''rahXXX@x.com'')])"
  by code_simp




text \<open>
  C3. \<open>analyze_record\<close> returns \<open>has_pii = true\<close> exactly when one of the four
  standalone tests (by key or by value) holds for a field that is neither \<open>None\<close> nor the
  empty string, or at least two of the five combinatorial lists are non-empty.
\<close>

theorem has_pii_iff:
  "\<exists>has r. analyze_record data = Inr (has, r) \<and>
     (has \<longleftrightarrow> (\<exists>(k, v)\<in>set data. \<not> skipped v \<and> standalone_fires k (strip (py_str v)))
              \<or> 2 \<le> el_count data)"
proof -
  from analyze_record_result[of data] obtain st where st: "scan_fields data init data = Inr st"
    and res: "if 2 \<le> combinatorial_count st
      then \<exists>d. redact_elements (redacted_data st) (combinatorial_items st) = Inr d \<and>
               analyze_record data = Inr (True, d)
      else analyze_record data = Inr (has_pii st, redacted_data st)"
    by blast
  note count = combinatorial_count_el_count[OF st]
  have pii: "has_pii st = (\<exists>(k, v)\<in>set data. \<not> skipped v \<and> standalone_fires k (strip (py_str v)))"
    using scan_fields_has_pii[OF st] by simp
  show ?thesis
  proof (cases "2 \<le> combinatorial_count st")
    case True
    with res count show ?thesis by auto
  next
    case False
    with res have "analyze_record data = Inr (has_pii st, redacted_data st)" by simp
    with False count pii show ?thesis by simp
  qed
qed

text \<open>
  C3 at a record with a name and an email: two lists are non-empty and the result is true.
\<close>

theorem has_pii_iff_witness:
  "2 \<le> el_count [(''name'', PStr ''Rahul Sharma''), (''email'', PStr ''rahul@x.com'')] \<and>
   (\<exists>r. analyze_record [(''name'', PStr ''Rahul Sharma''), (''email'', PStr ''rahul@x.com'')] = Inr (True, r))"
proof -
  let ?D = "[(''name'', PStr ''Rahul Sharma''), (''email'', PStr ''rahul@x.com'')]"
  have e: "2 \<le> el_count ?D" by code_simp
  from has_pii_iff[of ?D] obtain has r where
    "analyze_record ?D = Inr (has, r)"
    "has \<longleftrightarrow> (\<exists>(k, v)\<in>set ?D. \<not> skipped v \<and> standalone_fires k (strip (py_str v))) \<or> 2 \<le> el_count ?D"
    by blast
  with e have "analyze_record ?D = Inr (True, r)" by simp
  with e show ?thesis by blast
qed

text \<open>
  C4 (as amended). The key of a field is put on the name list exactly when the value is
  neither \<open>None\<close> nor the empty string and either the key is \<open>name\<close> and
  \<open>extract_names\<close> finds a name in the stripped value, or the key is \<open>first_name\<close> or
  \<open>last_name\<close> and the record has no key \<open>name\<close>. A value of the shape of a name
  under any other key is not put on the name list.
\<close>

theorem name_el_fields:
  "\<exists>st. scan_fields data init data = Inr st \<and>
     name_el st = map fst (filter (\<lambda>(k, v). \<not> skipped v \<and>
        (k = ''name'' \<and> extract_names (strip (py_str v)) \<noteq> []
         \<or> k \<in> {''first_name'', ''last_name''} \<and> ''name'' \<notin> fst ` set data)) data)"
proof -
  obtain st where st: "scan_fields data init data = Inr st" using scan_fields_total by blast
  have "in_el ''name'' data = (\<lambda>(k, v). \<not> skipped v \<and>
        (k = ''name'' \<and> extract_names (strip (py_str v)) \<noteq> []
         \<or> k \<in> {''first_name'', ''last_name''} \<and> ''name'' \<notin> fst ` set data))"
    by (auto simp: in_el_def element_type_of_def fun_eq_iff)
  with scan_init_els(1)[OF st] st show ?thesis by simp
qed

text \<open>
  The amended C4 at a record with a name under the key \<open>name\<close> and another under the
  key \<open>bio\<close>: the name list holds the key \<open>name\<close> only.
\<close>

theorem name_el_fields_witness:
  "\<exists>st. scan_fields [(''name'', PStr ''Rahul Sharma''), (''bio'', PStr ''Amit Kumar'')] init
            [(''name'', PStr ''Rahul Sharma''), (''bio'', PStr ''Amit Kumar'')] = Inr st \<and>
        name_el st = [''name'']"
proof -
  let ?D = "[(''name'', PStr ''Rahul Sharma''), (''bio'', PStr ''Amit Kumar'')]"
  have f: "map fst (filter (\<lambda>(k, v). \<not> skipped v \<and>
        (k = ''name'' \<and> extract_names (strip (py_str v)) \<noteq> []
         \<or> k \<in> {''first_name'', ''last_name''} \<and> ''name'' \<notin> fst ` set ?D)) ?D) = [''name'']"
    by code_simp
  from name_el_fields[of ?D] show ?thesis unfolding f .
qed

text \<open>
  C4 as stated fails: the value \<open>Rahul Sharma\<close> under the key \<open>bio\<close> is a name for
  \<open>extract_names\<close>, yet the name list stays empty; with an email beside it the record is
  returned with \<open>has_pii = false\<close>.
\<close>

theorem name_other_key_counterexample:
  "extract_names ''Rahul Sharma'' = [''Rahul Sharma''] \<and>
   map_sum id name_el (scan_fields [(''bio'', PStr ''Rahul Sharma''), (''email'', PStr ''a@x.com'')] init
       [(''bio'', PStr ''Rahul Sharma''), (''email'', PStr ''a@x.com'')]) = Inr [] \<and>
   analyze_record [(''bio'', PStr ''Rahul Sharma''), (''email'', PStr ''a@x.com'')] =
     Inr (False, [(''bio'', PStr ''Rahul Sharma''), (''email'', PStr ''a@x.com'')])"
  by code_simp

text \<open>
  C5 (as amended). A run of two capitalised words is left out of the names as soon as
  one of its words, in lower case, is in the stoplist; it is a name exactly when neither
  word is. (The stoplist holds first words of place names, and a run is not required to
  consist of stoplist words only.)
\<close>

theorem extract_names_stoplist:
  assumes "is_upper u1" "l1 \<noteq> []" "\<forall>c\<in>set l1. is_lower c"
    and "ws \<noteq> []" "\<forall>c\<in>set ws. is_space c"
    and "is_upper u2" "l2 \<noteq> []" "\<forall>c\<in>set l2. is_lower c"
  shows "extract_names ((u1 # l1) @ ws @ (u2 # l2)) =
    (if lower (u1 # l1) \<in> set stoplist \<or> lower (u2 # l2) \<in> set stoplist then []
     else [(u1 # l1) @ ws @ (u2 # l2)])"
  using assms by (rule extract_names_two_words)

text \<open>
  The amended C5 at \<open>Rahul  Sharma\<close>, two words outside the stoplist.
\<close>

theorem extract_names_stoplist_witness:
  "is_upper (CHR ''R'') \<and> is_upper (CHR ''S'') \<and>
   extract_names ''Rahul  Sharma'' = [''Rahul  Sharma'']"
proof -
  have h: "is_upper (CHR ''R'')" "''ahul'' \<noteq> []" "\<forall>c\<in>set ''ahul''. is_lower c"
    "''  '' \<noteq> []" "\<forall>c\<in>set ''  ''. is_space c"
    "is_upper (CHR ''S'')" "''harma'' \<noteq> []" "\<forall>c\<in>set ''harma''. is_lower c"
    by (simp_all add: is_upper_def is_lower_def is_space_def)
  have n: "\<not> (lower ''Rahul'' \<in> set stoplist \<or> lower ''Sharma'' \<in> set stoplist)" by code_simp
  from extract_names_stoplist[OF h] n have "extract_names ''Rahul  Sharma'' = [''Rahul  Sharma'']"
    by simp
  with h show ?thesis by blast
qed

text \<open>
  C5 as stated fails: in \<open>York Smith\<close> only \<open>York\<close> is in the stoplist; the pattern
  matches the run, and it is not returned as a name.
\<close>

theorem extract_names_stoplist_counterexample:
  "lower ''York'' \<in> set stoplist \<and> lower ''Smith'' \<notin> set stoplist \<and>
   re_findall name_pattern ''York Smith'' = [''York Smith''] \<and>
   extract_names ''York Smith'' = []"
  by code_simp

text \<open>
  C6 (as amended). A field whose value is \<open>None\<close> or the empty string is returned
  unchanged. Any other field for which no standalone test holds, and which is not redacted
  as a combinatorial element (fewer than two lists are non-empty, or the field is on none
  of the name, email, \<open>device_id\<close> and \<open>ip_address\<close> lists), is returned as the stripped
  text of its value, \<open>str(value).strip()\<close>: white space around the value is removed and
  a value that is not a string is returned as its string.
\<close>

theorem unredacted_field_value:
  assumes "distinct (map fst data)" "(k, v) \<in> set data"
  shows "\<exists>has r. analyze_record data = Inr (has, r) \<and>
     (skipped v \<longrightarrow> map_of r k = Some v) \<and>
     (\<not> skipped v \<and> \<not> standalone_fires k (strip (py_str v)) \<and>
      (el_count data < 2 \<or>
       (\<not> in_el ''name'' data (k, v) \<and> \<not> in_el ''email'' data (k, v) \<and>
        \<not> in_el ''device_id'' data (k, v) \<and> \<not> in_el ''ip_address'' data (k, v)))
      \<longrightarrow> map_of r k = Some (PStr (strip (py_str v))))"
proof -
  from analyze_record_result[of data] obtain st where st: "scan_fields data init data = Inr st"
    and res: "if 2 \<le> combinatorial_count st
      then \<exists>d. redact_elements (redacted_data st) (combinatorial_items st) = Inr d \<and>
               analyze_record data = Inr (True, d)
      else analyze_record data = Inr (has_pii st, redacted_data st)"
    by blast
  note count = combinatorial_count_el_count[OF st]
  from scan_init_value[OF assms st] obtain w x where
    w: "map_of (redacted_data st) k = Some w" "skipped v \<longrightarrow> w = v"
      "\<not> skipped v \<longrightarrow> w = PStr x \<and> (\<not> standalone_fires k (strip (py_str v)) \<longrightarrow> x = strip (py_str v))"
    by blast
  show ?thesis
  proof (cases "2 \<le> combinatorial_count st")
    case False
    with res have "analyze_record data = Inr (has_pii st, redacted_data st)" by simp
    with w show ?thesis by auto
  next
    case True
    with res obtain d where d: "redact_elements (redacted_data st) (combinatorial_items st) = Inr d"
      "analyze_record data = Inr (True, d)" by auto
    have same: "map_of d k = Some w"
      if "\<not> in_el ''name'' data (k, v)" "\<not> in_el ''email'' data (k, v)"
        "\<not> in_el ''device_id'' data (k, v)" "\<not> in_el ''ip_address'' data (k, v)"
      using redact_elements_value(5)[OF assms st d(1) w(1)] that by blast
    have skip: "map_of d k = Some v" if "skipped v"
      using same that w(2) by (simp add: in_el_def)
    have keep: "map_of d k = Some (PStr (strip (py_str v)))"
      if "\<not> skipped v" "\<not> standalone_fires k (strip (py_str v))"
        "\<not> in_el ''name'' data (k, v)" "\<not> in_el ''email'' data (k, v)"
        "\<not> in_el ''device_id'' data (k, v)" "\<not> in_el ''ip_address'' data (k, v)"
      using same that w(3) by simp
    from True count have "\<not> el_count data < 2" by simp
    with d(2) skip keep show ?thesis by auto
  qed
qed

text \<open>
  The amended C6 at a record with a note and an email: the note is returned stripped.
\<close>

theorem unredacted_field_value_witness:
  "distinct (map fst [(''note'', PStr ''  hi  ''), (''email'', PStr ''rahul@x.com'')]) \<and>
   (''note'', PStr ''  hi  '') \<in> set [(''note'', PStr ''  hi  ''), (''email'', PStr ''rahul@x.com'')] \<and>
   \<not> skipped (PStr ''  hi  '') \<and> \<not> standalone_fires ''note'' ''hi'' \<and>
   el_count [(''note'', PStr ''  hi  ''), (''email'', PStr ''rahul@x.com'')] < 2 \<and>
   (\<exists>has r. analyze_record [(''note'', PStr ''  hi  ''), (''email'', PStr ''rahul@x.com'')] = Inr (has, r) \<and>
      map_of r ''note'' = Some (PStr ''hi''))"
proof -
  let ?D = "[(''note'', PStr ''  hi  ''), (''email'', PStr ''rahul@x.com'')]"
  have h1: "distinct (map fst ?D)" by simp
  have h2: "(''note'', PStr ''  hi  '') \<in> set ?D" by simp
  have s: "strip (py_str (PStr ''  hi  '')) = ''hi''" by code_simp
  have h3: "\<not> skipped (PStr ''  hi  '')" by (simp add: skipped_def)
  have h4: "\<not> standalone_fires ''note'' ''hi''" by code_simp
  have h5: "el_count ?D < 2" by code_simp
  from unredacted_field_value[OF h1 h2] h3 h4 h5 s
  have "\<exists>has r. analyze_record ?D = Inr (has, r) \<and> map_of r ''note'' = Some (PStr ''hi'')"
    by auto
  with h1 h2 h3 h4 h5 show ?thesis by blast
qed

text \<open>
  C6 as stated fails: no test holds for the two fields and no list is filled, yet the
  string loses the white space around it and the number \<open>5\<close> is returned as the string
  \<open>'5'\<close>.
\<close>

theorem value_stripped_counterexample:
  "\<not> standalone_fires ''note'' (strip ''  hi  '') \<and> \<not> standalone_fires ''n'' (strip (py_str (PInt 5))) \<and>
   el_count [(''note'', PStr ''  hi  ''), (''n'', PInt 5)] = 0 \<and>
   analyze_record [(''note'', PStr ''  hi  ''), (''n'', PInt 5)] =
     Inr (False, [(''note'', PStr ''hi''), (''n'', PStr ''5'')])"
  by code_simp

text \<open>
  C7 (as amended). For an email \<open>l@d.t\<close> whose local part \<open>l\<close> has at most three
  characters, the email mask drops the local part: the result is \<open>XXX@d.t\<close>, the domain
  unchanged. (\<open>l\<close> begins with a letter, a digit or an underscore, \<open>d\<close> is a non-empty
  run of the domain class, \<open>t\<close> has at least two letters.)
\<close>

theorem redact_text_email_short_local:
  assumes "l \<noteq> []" "length l \<le> 3" "\<forall>c\<in>set l. email_local c" "is_word (hd l)"
    and "d \<noteq> []" "\<forall>c\<in>set d. email_domain c"
    and "2 \<le> length t" "\<forall>c\<in>set t. is_alpha c"
  shows "redact_text (l @ ''@'' @ d @ ''.'' @ t) ''email'' = Inr (''XXX@'' @ d @ ''.'' @ t)"
  using assms by (rule redact_text_email_short)

text \<open>
  The amended C7 at \<open>abc@mail.example.org\<close>.
\<close>

theorem redact_text_email_short_local_witness:
  "length ''abc'' \<le> 3 \<and> is_word (hd ''abc'') \<and> 2 \<le> length ''org'' \<and>
   redact_text ''abc@mail.example.org'' ''email'' = Inr ''XXX@mail.example.org''"
proof -
  have h: "''abc'' \<noteq> []" "length ''abc'' \<le> 3" "\<forall>c\<in>set ''abc''. email_local c" "is_word (hd ''abc'')"
    "''mail.example'' \<noteq> []" "\<forall>c\<in>set ''mail.example''. email_domain c"
    "2 \<le> length ''org''" "\<forall>c\<in>set ''org''. is_alpha c"
    by (simp_all add: email_local_def email_domain_def is_word_def is_alpha_def is_lower_def)
  from redact_text_email_short_local[OF h]
  have "redact_text ''abc@mail.example.org'' ''email'' = Inr ''XXX@mail.example.org''" by simp
  with h show ?thesis by blast
qed

text \<open>
  C7 as stated fails: \<open>ab@x.com\<close> is masked to \<open>XXX@x.com\<close>, not to
  \<open>abXXX@x.com\<close>.
\<close>

theorem redact_text_email_short_local_counterexample:
  "redact_text ''ab@x.com'' ''email'' = Inr ''XXX@x.com''"
  by code_simp

text \<open>
  C8 (as amended). For twelve digits, the first of them in \<open>2 .. 9\<close>: written in three
  groups of four with single spaces, the mask is \<open>XXXX XXXX\<close> and the last group; written
  without spaces, it is \<open>XXXXXXXX\<close> and the last four digits. When one of the two
  spaces only is present the grouping is not kept: the mask is the one of the spaced form,
  with both spaces.
\<close>

theorem redact_text_aadhar_grouping:
  assumes "length a = 4" "digit_2_9 (hd a)" "\<forall>x\<in>set a. is_digit x"
    and "length b = 4" "\<forall>x\<in>set b. is_digit x"
    and "length c = 4" "\<forall>x\<in>set c. is_digit x"
  shows "redact_text (a @ '' '' @ b @ '' '' @ c) ''aadhar'' = Inr (''XXXX XXXX '' @ c) \<and>
         redact_text (a @ b @ c) ''aadhar'' = Inr (''XXXXXXXX'' @ c) \<and>
         redact_text (a @ '' '' @ b @ c) ''aadhar'' = Inr (''XXXX XXXX '' @ c) \<and>
         redact_text (a @ b @ '' '' @ c) ''aadhar'' = Inr (''XXXX XXXX '' @ c)"
  using redact_text_aadhar_groups[OF assms] by blast

text \<open>
  The amended C8 at the digits \<open>2345\<close>, \<open>6789\<close>, \<open>0123\<close>.
\<close>

theorem redact_text_aadhar_grouping_witness:
  "length ''2345'' = 4 \<and> digit_2_9 (hd ''2345'') \<and> length ''6789'' = 4 \<and> length ''0123'' = 4 \<and>
   redact_text ''2345 6789 0123'' ''aadhar'' = Inr ''XXXX XXXX 0123'' \<and>
   redact_text ''234567890123'' ''aadhar'' = Inr ''XXXXXXXX0123'' \<and>
   redact_text ''23456789 0123'' ''aadhar'' = Inr ''XXXX XXXX 0123''"
proof -
  have h: "length ''2345'' = 4" "digit_2_9 (hd ''2345'')" "\<forall>x\<in>set ''2345''. is_digit x"
    "length ''6789'' = 4" "\<forall>x\<in>set ''6789''. is_digit x"
    "length ''0123'' = 4" "\<forall>x\<in>set ''0123''. is_digit x"
    by (simp_all add: digit_2_9_def is_digit_def)
  from redact_text_aadhar_grouping[OF h]
  have "redact_text ''2345 6789 0123'' ''aadhar'' = Inr ''XXXX XXXX 0123'' \<and>
   redact_text ''234567890123'' ''aadhar'' = Inr ''XXXXXXXX0123'' \<and>
   redact_text ''23456789 0123'' ''aadhar'' = Inr ''XXXX XXXX 0123''"
    by simp
  with h show ?thesis by blast
qed

text \<open>
  C8 as stated fails: the pattern matches \<open>2345 67890123\<close>, with one space, and the
  mask has two.
\<close>

theorem redact_text_aadhar_one_space_counterexample:
  "re_search patterns_aadhar ''2345 67890123'' \<and>
   redact_text ''2345 67890123'' ''aadhar'' = Inr ''XXXX XXXX 0123''"
  by code_simp

text \<open>
  C9. The redacted record returned by \<open>analyze_record\<close> has the keys of the input, in
  the order of the input.
\<close>

theorem analyze_record_keys:
  assumes "distinct (map fst data)"
  shows "\<exists>has r. analyze_record data = Inr (has, r) \<and> map fst r = map fst data"
proof -
  from analyze_record_result[of data] obtain st where st: "scan_fields data init data = Inr st"
    and res: "if 2 \<le> combinatorial_count st
      then \<exists>d. redact_elements (redacted_data st) (combinatorial_items st) = Inr d \<and>
               analyze_record data = Inr (True, d)
      else analyze_record data = Inr (has_pii st, redacted_data st)"
    by blast
  have keys: "map fst (redacted_data st) = map fst data"
    using scan_fields_keys[OF st] assms by simp
  show ?thesis
  proof (cases "2 \<le> combinatorial_count st")
    case True
    with res obtain d where d: "redact_elements (redacted_data st) (combinatorial_items st) = Inr d"
      "analyze_record data = Inr (True, d)" by auto
    from redact_elements_keys[OF d(1)] keys have "map fst d = map fst data" by simp
    with d(2) show ?thesis by blast
  next
    case False
    with res keys show ?thesis by simp
  qed
qed

text \<open>
  C9 at a record with a name and an email.
\<close>

theorem analyze_record_keys_witness:
  "distinct (map fst [(''name'', PStr ''Rahul Sharma''), (''email'', PStr ''rahul@x.com'')]) \<and>
   (\<exists>has r. analyze_record [(''name'', PStr ''Rahul Sharma''), (''email'', PStr ''rahul@x.com'')] = Inr (has, r)
      \<and> map fst r = [''name'', ''email''])"
  using analyze_record_keys[of "[(''name'', PStr ''Rahul Sharma''), (''email'', PStr ''rahul@x.com'')]"]
  by simp

text \<open>
  C10 (as amended). \<open>redact_text\<close> is total: for every string and every entity type it
  returns a value and raises nothing. The value is not the empty string whenever the input
  has a character that is not white space. (The input is stripped first, so a value of
  white space only is reduced to the empty string.)
\<close>

theorem redact_text_total_nonempty:
  "(\<exists>r. redact_text text entity_type = Inr r) \<and>
   (\<forall>r. redact_text text entity_type = Inr r \<longrightarrow> strip text \<noteq> [] \<longrightarrow> r \<noteq> [])"
  using redact_text_total redact_text_nonempty by blast

text \<open>The amended C10 at a phone number with spaces around it.\<close>

theorem redact_text_total_nonempty_witness:
  "strip '' 9876543210 '' \<noteq> [] \<and>
   (\<exists>r. redact_text '' 9876543210 '' ''phone'' = Inr r \<and> r \<noteq> [])"
proof -
  have h: "strip '' 9876543210 '' \<noteq> []" by code_simp
  with redact_text_total_nonempty[of "'' 9876543210 ''" "''phone''"] show ?thesis by blast
qed

text \<open>C10 as stated fails: a non-empty value of three spaces is masked to the empty string.\<close>

theorem redact_text_whitespace_counterexample:
  "''   '' \<noteq> [] \<and> redact_text ''   '' ''phone'' = Inr []"
  by code_simp

end
